theory Spec2Isabelle
  imports Main "HOL-Library.Sublist"
begin

chapter \<open>The model\<close>

section \<open>Strings and values of the JavaScript runtime\<close>

text \<open>
  A JavaScript string is a sequence of UTF-16 code units; a code unit is modelled as a
  natural number (below 65536 in every string the runtime builds). \<open>js\<close> turns an ASCII
  literal of this theory into such a sequence.
\<close>

type_synonym jschar = nat
type_synonym jsstring = "jschar list"

definition js :: "string \<Rightarrow> jsstring" where
  "js s = map of_char s"

definition code :: "char \<Rightarrow> jschar" where
  "code c = of_char c"

text \<open>
  The class \<^verbatim>\<open>\s\<close> of a regular expression, which is also what \<^verbatim>\<open>trim()\<close> removes:
  WhiteSpace (TAB, VT, FF, SP, NBSP, ZWNBSP and the space separators of Unicode) and
  LineTerminator (LF, CR, LS, PS).
\<close>

definition isWhiteSpace :: "jschar \<Rightarrow> bool" where
  "isWhiteSpace c =
     (c = 9 \<or> c = 10 \<or> c = 11 \<or> c = 12 \<or> c = 13 \<or> c = 32 \<or> c = 160 \<or> c = 5760
      \<or> (8192 \<le> c \<and> c \<le> 8202) \<or> c = 8232 \<or> c = 8233 \<or> c = 8239 \<or> c = 8287
      \<or> c = 12288 \<or> c = 65279)"

text \<open>The characters the dot of a regular expression does not match (no \<^verbatim>\<open>s\<close> flag).\<close>

definition isLineTerminator :: "jschar \<Rightarrow> bool" where
  "isLineTerminator c = (c = 10 \<or> c = 13 \<or> c = 8232 \<or> c = 8233)"

text \<open>The class \<^verbatim>\<open>\w\<close>, which decides \<^verbatim>\<open>\b\<close>: ASCII letters, digits and the underscore.\<close>

definition isWordChar :: "jschar \<Rightarrow> bool" where
  "isWordChar c = ((48 \<le> c \<and> c \<le> 57) \<or> (65 \<le> c \<and> c \<le> 90) \<or> c = 95 \<or> (97 \<le> c \<and> c \<le> 122))"

text \<open>The class \<^verbatim>\<open>[a-zA-Z0-9_-]\<close> of the two scroll tags.\<close>

definition isIdChar :: "jschar \<Rightarrow> bool" where
  "isIdChar c = (isWordChar c \<or> c = 45)"

definition asciiLower :: "jschar \<Rightarrow> jschar" where
  "asciiLower c = (if 65 \<le> c \<and> c \<le> 90 then c + 32 else c)"

text \<open>
  \<^verbatim>\<open>String.prototype.toLowerCase\<close>. On a string of ASCII code units it lowers \<open>A\<close> to \<open>Z\<close>
  and keeps the rest. On any other string the result is given by the Unicode case tables
  of the runtime, which this theory takes as a parameter \<open>u\<close>: nothing is assumed of it.
\<close>

definition toLowerCase :: "(jsstring \<Rightarrow> jsstring) \<Rightarrow> jsstring \<Rightarrow> jsstring" where
  "toLowerCase u s = (if list_all (\<lambda>c. c < 128) s then map asciiLower s else u s)"

text \<open>\<^verbatim>\<open>String.prototype.trim\<close>.\<close>

definition trim :: "jsstring \<Rightarrow> jsstring" where
  "trim s = rev (dropWhile isWhiteSpace (rev (dropWhile isWhiteSpace s)))"

text \<open>
  \<^verbatim>\<open>s.slice(a, b)\<close> for indices \<open>0 \<le> a\<close> and \<open>0 \<le> b\<close>: both are clipped to the length, and
  the result is empty when \<open>b \<le> a\<close>.
\<close>

definition slice :: "jsstring \<Rightarrow> nat \<Rightarrow> nat \<Rightarrow> jsstring" where
  "slice s a b = take (b - a) (drop a s)"

text \<open>
  The values of JSON data, which is what the HTTP layer hands over as the user message and
  what \<^verbatim>\<open>JSON.parse\<close> returns, and \<^verbatim>\<open>undefined\<close>. A number is held as the text that
  \<^verbatim>\<open>String\<close> gives for it (\<open>0\<close> for both zeros, \<open>NaN\<close>): the source only tests numbers
  for truth and turns them into strings. An object is the list of its own properties in
  insertion order, the first pair of a key being the property.
\<close>

datatype jsval =
    VUndefined
  | VNull
  | VBool bool
  | VNum jsstring
  | VStr jsstring
  | VArr "jsval list"
  | VObj "(jsstring \<times> jsval) list"

text \<open>What \<^verbatim>\<open>if (v)\<close>, \<^verbatim>\<open>v || x\<close> and \<^verbatim>\<open>v ? x : y\<close> test.\<close>

fun truthy :: "jsval \<Rightarrow> bool" where
  "truthy VUndefined = False"
| "truthy VNull = False"
| "truthy (VBool b) = b"
| "truthy (VNum n) = (n \<noteq> js ''0'' \<and> n \<noteq> js ''NaN'')"
| "truthy (VStr s) = (s \<noteq> [])"
| "truthy (VArr xs) = True"
| "truthy (VObj ps) = True"

text \<open>
  A thrown error, with its \<^verbatim>\<open>message\<close> (\<open>None\<close> when it has none), and the three ways a call
  can end. The source throws and catches \<^verbatim>\<open>Error\<close> objects only.
\<close>

datatype thrown = Thrown "jsstring option"

fun message :: "thrown \<Rightarrow> jsstring option" where
  "message (Thrown m) = m"

datatype 'a outcome = Returns 'a | Throws thrown | Diverges

definition typeError :: thrown where
  "typeError = Thrown (Some (js ''Cannot convert object to primitive value''))"

text \<open>
  \<^verbatim>\<open>String(v)\<close>. An array is joined with commas, \<^verbatim>\<open>null\<close> and \<^verbatim>\<open>undefined\<close> elements giving
  the empty string. An object of JSON data is \<^verbatim>\<open>[object Object]\<close>, unless it has a property
  \<^verbatim>\<open>toString\<close> of its own: that property is JSON data, so it cannot be called, the inherited
  \<^verbatim>\<open>valueOf\<close> (or an own one, which cannot be called either) gives no primitive, and the
  conversion throws a \<^verbatim>\<open>TypeError\<close>.
\<close>

fun ToString :: "jsval \<Rightarrow> thrown + jsstring"
  and joinElements :: "jsval list \<Rightarrow> thrown + jsstring"
where
  "ToString VUndefined = Inr (js ''undefined'')"
| "ToString VNull = Inr (js ''null'')"
| "ToString (VBool b) = Inr (if b then js ''true'' else js ''false'')"
| "ToString (VNum n) = Inr n"
| "ToString (VStr s) = Inr s"
| "ToString (VArr xs) = joinElements xs"
| "ToString (VObj ps) =
     (if js ''toString'' \<in> fst ` set ps then Inl typeError else Inr (js ''[object Object]''))"
| "joinElements [] = Inr []"
| "joinElements (x # xs) =
     (case (if x = VUndefined \<or> x = VNull then Inr [] else ToString x) of
        Inl e \<Rightarrow> Inl e
      | Inr a \<Rightarrow>
          (if xs = [] then Inr a
           else (case joinElements xs of
                   Inl e \<Rightarrow> Inl e
                 | Inr b \<Rightarrow> Inr (a @ js '','' @ b))))"

text \<open>
  \<^verbatim>\<open>obj?.key\<close> for the keys the source reads (\<^verbatim>\<open>field\<close>, \<^verbatim>\<open>selector\<close>, \<^verbatim>\<open>value\<close>, which no
  prototype of JSON data has): the own property of an object, \<^verbatim>\<open>undefined\<close> otherwise.
\<close>

fun getProp :: "jsval \<Rightarrow> jsstring \<Rightarrow> jsval" where
  "getProp (VObj ps) key = (case map_of ps key of Some v \<Rightarrow> v | None \<Rightarrow> VUndefined)"
| "getProp v key = VUndefined"

text \<open>\<^verbatim>\<open>xs.join(", ")\<close> on strings.\<close>

fun joinWith :: "jsstring \<Rightarrow> jsstring list \<Rightarrow> jsstring" where
  "joinWith sep [] = []"
| "joinWith sep [x] = x"
| "joinWith sep (x # xs) = x @ sep @ joinWith sep xs"

text \<open>\<^verbatim>\<open>t.includes(s)\<close>.\<close>

fun includesStr :: "jsstring \<Rightarrow> jsstring \<Rightarrow> bool" where
  "includesStr [] s = (s = [])"
| "includesStr (x # t) s = (prefix s (x # t) \<or> includesStr t s)"

section \<open>Regular expressions as the runtime matches them\<close>

text \<open>
  The regular expressions of the source are matched by backtracking, as ECMAScript
  specifies: a pattern is run against the text at a position with a continuation for what
  follows it, and returns the first match in its order of preference. A position of the
  text is kept as the text before it, reversed (which \<^verbatim>\<open>\b\<close> and \<^verbatim>\<open>^\<close> look at), and the
  text after it. Every quantifier of the source stands on a character class, so \<open>Star\<close> and
  \<open>LazyStar\<close> take a class. A capture group carries its number; the captures are a map
  from the number to the captured text.
\<close>

datatype rx =
    Chr "jschar \<Rightarrow> bool"
  | Eps
  | Seq rx rx
  | Alt rx rx
  | Star "jschar \<Rightarrow> bool"
  | LazyStar "jschar \<Rightarrow> bool"
  | Group nat rx
  | WordBoundary
  | Bol
  | Eol

text \<open>Greedy \<^verbatim>\<open>c*\<close>: one more character first, then the continuation as it stands.\<close>

fun starGreedy ::
  "(jschar \<Rightarrow> bool) \<Rightarrow> jsstring \<Rightarrow> jsstring \<Rightarrow> (jsstring \<Rightarrow> jsstring \<Rightarrow> 'r option) \<Rightarrow> 'r option"
where
  "starGreedy p prev [] k = k prev []"
| "starGreedy p prev (x # rest) k =
     (if p x then
        (case starGreedy p (x # prev) rest k of
           Some m \<Rightarrow> Some m
         | None \<Rightarrow> k prev (x # rest))
      else k prev (x # rest))"

text \<open>Lazy \<^verbatim>\<open>c*?\<close>: the continuation first, one more character when it fails.\<close>

fun starLazy ::
  "(jschar \<Rightarrow> bool) \<Rightarrow> jsstring \<Rightarrow> jsstring \<Rightarrow> (jsstring \<Rightarrow> jsstring \<Rightarrow> 'r option) \<Rightarrow> 'r option"
where
  "starLazy p prev [] k = k prev []"
| "starLazy p prev (x # rest) k =
     (case k prev (x # rest) of
        Some m \<Rightarrow> Some m
      | None \<Rightarrow> if p x then starLazy p (x # prev) rest k else None)"

definition isWordBoundary :: "jsstring \<Rightarrow> jsstring \<Rightarrow> bool" where
  "isWordBoundary prev rest =
     ((case prev of [] \<Rightarrow> False | a # _ \<Rightarrow> isWordChar a)
      \<noteq> (case rest of [] \<Rightarrow> False | b # _ \<Rightarrow> isWordChar b))"

type_synonym captures = "nat \<Rightarrow> jsstring option"

fun matchRx ::
  "rx \<Rightarrow> jsstring \<Rightarrow> jsstring \<Rightarrow> captures
   \<Rightarrow> (jsstring \<Rightarrow> jsstring \<Rightarrow> captures \<Rightarrow> 'r option) \<Rightarrow> 'r option"
where
  "matchRx (Chr p) prev rest cap k =
     (case rest of [] \<Rightarrow> None | x # rest \<Rightarrow> if p x then k (x # prev) rest cap else None)"
| "matchRx Eps prev rest cap k = k prev rest cap"
| "matchRx (Seq a b) prev rest cap k =
     matchRx a prev rest cap (\<lambda>prev' rest' cap'. matchRx b prev' rest' cap' k)"
| "matchRx (Alt a b) prev rest cap k =
     (case matchRx a prev rest cap k of
        Some m \<Rightarrow> Some m
      | None \<Rightarrow> matchRx b prev rest cap k)"
| "matchRx (Star p) prev rest cap k =
     starGreedy p prev rest (\<lambda>prev' rest'. k prev' rest' cap)"
| "matchRx (LazyStar p) prev rest cap k =
     starLazy p prev rest (\<lambda>prev' rest'. k prev' rest' cap)"
| "matchRx (Group n a) prev rest cap k =
     matchRx a prev rest cap
       (\<lambda>prev' rest' cap'.
          k prev' rest' (cap'(n \<mapsto> rev (take (length prev' - length prev) prev'))))"
| "matchRx WordBoundary prev rest cap k =
     (if isWordBoundary prev rest then k prev rest cap else None)"
| "matchRx Bol prev rest cap k = (if prev = [] then k prev rest cap else None)"
| "matchRx Eol prev rest cap k = (if rest = [] then k prev rest cap else None)"

text \<open>
  The pieces the patterns of the source are written with: a literal, a literal under the
  \<^verbatim>\<open>i\<close> flag, \<^verbatim>\<open>c+\<close>, \<^verbatim>\<open>(?:r)?\<close>, a sequence and an alternative of several patterns.

  Under the \<^verbatim>\<open>i\<close> flag (without \<^verbatim>\<open>u\<close>) two code units match when their canonical forms are
  equal; the canonical form is the upper case, except that a code unit from 128 on is
  never mapped below 128. A lower-case ASCII letter or an ASCII sign of the pattern is
  therefore matched by exactly the code units that \<open>asciiLower\<close> sends to it.
\<close>

fun lit :: "jsstring \<Rightarrow> rx" where
  "lit [] = Eps"
| "lit (c # cs) = Seq (Chr (\<lambda>x. x = c)) (lit cs)"

fun litCI :: "jsstring \<Rightarrow> rx" where
  "litCI [] = Eps"
| "litCI (c # cs) = Seq (Chr (\<lambda>x. asciiLower x = c)) (litCI cs)"

definition oneOrMore :: "(jschar \<Rightarrow> bool) \<Rightarrow> rx" where
  "oneOrMore p = Seq (Chr p) (Star p)"

definition lazyOneOrMore :: "(jschar \<Rightarrow> bool) \<Rightarrow> rx" where
  "lazyOneOrMore p = Seq (Chr p) (LazyStar p)"

definition optional :: "rx \<Rightarrow> rx" where
  "optional r = Alt r Eps"

fun seqs :: "rx list \<Rightarrow> rx" where
  "seqs [] = Eps"
| "seqs [r] = r"
| "seqs (r # rs) = Seq r (seqs rs)"

fun alts :: "rx list \<Rightarrow> rx" where
  "alts [] = Chr (\<lambda>x. False)"
| "alts [r] = r"
| "alts (r # rs) = Alt r (alts rs)"

text \<open>
  The result of \<^verbatim>\<open>re.exec(text)\<close> that the source reads: \<^verbatim>\<open>m.index\<close>, the groups
  \<^verbatim>\<open>m[1]\<close>, \<^verbatim>\<open>m[2]\<close> (\<open>None\<close> for \<^verbatim>\<open>undefined\<close>) and \<^verbatim>\<open>re.lastIndex\<close> when the call has returned.
\<close>

record jsmatch =
  index :: nat
  groups :: captures
  lastIndex :: nat

text \<open>The pattern at one position, and the search for the first position where it matches.\<close>

definition matchAt :: "rx \<Rightarrow> jsstring \<Rightarrow> jsstring \<Rightarrow> (jsstring \<times> jsstring \<times> captures) option" where
  "matchAt re prev rest =
     matchRx re prev rest Map.empty (\<lambda>prev' rest' cap. Some (prev', rest', cap))"

fun search :: "rx \<Rightarrow> jsstring \<Rightarrow> jsstring \<Rightarrow> (jsstring \<times> jsstring \<times> jsstring \<times> captures) option" where
  "search re prev [] =
     (case matchAt re prev [] of
        Some (prev', rest', cap) \<Rightarrow> Some (prev, prev', rest', cap)
      | None \<Rightarrow> None)"
| "search re prev (x # rest) =
     (case matchAt re prev (x # rest) of
        Some (prev', rest', cap) \<Rightarrow> Some (prev, prev', rest', cap)
      | None \<Rightarrow> search re (x # prev) rest)"

text \<open>
  \<^verbatim>\<open>re.exec(text)\<close> of a pattern with the \<^verbatim>\<open>g\<close> flag whose \<^verbatim>\<open>lastIndex\<close> is \<open>i\<close>: the search
  starts at \<open>i\<close>, and \<^verbatim>\<open>null\<close> is \<open>None\<close>.
\<close>

definition exec :: "rx \<Rightarrow> jsstring \<Rightarrow> nat \<Rightarrow> jsmatch option" where
  "exec re t i =
     (if i \<le> length t then
        (case search re (rev (take i t)) (drop i t) of
           Some (start, prev', rest', cap) \<Rightarrow>
             Some \<lparr>index = length start, groups = cap, lastIndex = length prev'\<rparr>
         | None \<Rightarrow> None)
      else None)"

text \<open>
  The loop \<^verbatim>\<open>while ((m = re.exec(text)) !== null) body\<close>, with the state the body changes
  passed along. A match that leaves \<^verbatim>\<open>lastIndex\<close> where it was would be found again forever:
  the loop does not return, which is the value \<open>None\<close>.
\<close>

function execLoop ::
  "rx \<Rightarrow> (jsmatch \<Rightarrow> 's \<Rightarrow> 's) \<Rightarrow> jsstring \<Rightarrow> nat \<Rightarrow> 's \<Rightarrow> 's option"
where
  "execLoop re body t i s =
     (case exec re t i of
        None \<Rightarrow> Some s
      | Some m \<Rightarrow> if i < lastIndex m \<and> lastIndex m \<le> length t
                  then execLoop re body t (lastIndex m) (body m s) else None)"
  by pat_completeness auto
termination
  by (relation "measure (\<lambda>(re, body, t, i, s). length t - i)") auto

declare execLoop.simps [simp del]

text \<open>
  \<^verbatim>\<open>text.replace(re, "")\<close> for a pattern without the \<^verbatim>\<open>g\<close> flag: the first match is taken
  out.
\<close>

definition replaceFirst :: "rx \<Rightarrow> jsstring \<Rightarrow> jsstring" where
  "replaceFirst re t =
     (case search re [] t of
        Some (start, prev', rest', cap) \<Rightarrow> rev start @ rest'
      | None \<Rightarrow> t)"

text \<open>
  \<^verbatim>\<open>text.replace(re, "")\<close> for a pattern with the \<^verbatim>\<open>g\<close> flag: every match is taken out, the
  search going on from the end of the match; rest a match of no character it goes on
  one character further.
\<close>

function replaceAll :: "rx \<Rightarrow> jsstring \<Rightarrow> jsstring \<Rightarrow> jsstring" where
  "replaceAll re prev [] = []"
| "replaceAll re prev (x # rest) =
     (case matchAt re prev (x # rest) of
        Some (prev', rest', cap) \<Rightarrow>
          if length rest' < length (x # rest) then replaceAll re prev' rest'
          else x # replaceAll re (x # prev) rest
      | None \<Rightarrow> x # replaceAll re (x # prev) rest)"
  by pat_completeness auto
termination
  by (relation "measure (\<lambda>(re, prev, rest). length rest)") auto

section \<open>The History Normalizer\<close>

text \<open>
  Lines 101 to 129 of the module with the deterministic extractor, and lines 81 to 107 of
  \<^verbatim>\<open>services/geminiService.js\<close>: the two copies are the same code. A turn of the caller's
  log carries a role and a content; the window handed to the model carries one of the two
  role literals \<^verbatim>\<open>"model"\<close> and \<^verbatim>\<open>"user"\<close>.
\<close>

record turn =
  role :: jsstring
  content :: jsstring

datatype gemini_role = Model | User

record gemini_turn =
  grole :: gemini_role
  parts :: jsstring

text \<open>\<^verbatim>\<open>conversationHistory.slice(-6)\<close>.\<close>

definition sliceLast :: "nat \<Rightarrow> 'a list \<Rightarrow> 'a list" where
  "sliceLast n xs = drop (length xs - n) xs"

definition toGemini :: "turn \<Rightarrow> gemini_turn" where
  "toGemini msg =
     \<lparr>grole = (if role msg = js ''assistant'' then Model else User), parts = content msg\<rparr>"

text \<open>The \<^verbatim>\<open>while\<close> loop that advances \<^verbatim>\<open>startIndex\<close> over the leading model turns.\<close>

function skipModel :: "gemini_turn list \<Rightarrow> nat \<Rightarrow> nat" where
  "skipModel g startIndex =
     (if startIndex < length g \<and> grole (g ! startIndex) = Model
      then skipModel g (startIndex + 1) else startIndex)"
  by pat_completeness auto
termination
  by (relation "measure (\<lambda>(g, i). length g - i)") auto

declare skipModel.simps [simp del]

text \<open>
  The \<^verbatim>\<open>for\<close> loop that fills \<^verbatim>\<open>cleanedHistory\<close>: the current turn is pushed when nothing
  was pushed yet or when the last pushed turn has another role.
\<close>

fun cleanLoop :: "gemini_turn list \<Rightarrow> gemini_turn list \<Rightarrow> gemini_turn list" where
  "cleanLoop cleanedHistory [] = cleanedHistory"
| "cleanLoop cleanedHistory (current # rest) =
     cleanLoop
       (if cleanedHistory = [] \<or> grole (last cleanedHistory) \<noteq> grole current
        then cleanedHistory @ [current] else cleanedHistory)
       rest"

definition normalizeHistory :: "turn list \<Rightarrow> gemini_turn list" where
  "normalizeHistory conversationHistory =
     (if length conversationHistory > 0 then
        let recentHistory = sliceLast 6 conversationHistory;
            geminiHistory = map toGemini recentHistory;
            startIndex = skipModel geminiHistory 0;
            history = drop startIndex geminiHistory
        in cleanLoop [] history
      else [])"

text \<open>
  What the specification asks of the window, written from its words: the first turn of
  every run of equal roles.
\<close>

fun firstOfRuns :: "gemini_turn list \<Rightarrow> gemini_turn list" where
  "firstOfRuns [] = []"
| "firstOfRuns [x] = [x]"
| "firstOfRuns (x # y # ys) =
     (if grole x = grole y then firstOfRuns (x # ys) else x # firstOfRuns (y # ys))"

definition alternates :: "gemini_turn list \<Rightarrow> bool" where
  "alternates w = (\<forall>i. Suc i < length w \<longrightarrow> grole (w ! i) \<noteq> grole (w ! Suc i))"

section \<open>The Deterministic Intent Extractor\<close>

text \<open>
  \<^verbatim>\<open>parseFillFromUser\<close>, lines 25 to 60. The pattern of line 31 is
  \<^verbatim>\<open>/\b(?:fill|add|set)\s+(name|email|message|search)\s*(?:field)?\s*(?:as|to|=)?\s*/gi\<close>.
\<close>

definition userFillRe :: rx where
  "userFillRe =
     seqs [WordBoundary,
           alts [litCI (js ''fill''), litCI (js ''add''), litCI (js ''set'')],
           oneOrMore isWhiteSpace,
           Group 1 (alts [litCI (js ''name''), litCI (js ''email''), litCI (js ''message''),
                          litCI (js ''search'')]),
           Star isWhiteSpace,
           optional (litCI (js ''field'')),
           Star isWhiteSpace,
           optional (alts [litCI (js ''as''), litCI (js ''to''), litCI (js ''='')]),
           Star isWhiteSpace]"

text \<open>\<^verbatim>\<open>/^[,:-]\s*/\<close> and \<^verbatim>\<open>/[,\s]+$/\<close>, lines 49 and 50.\<close>

definition leadingSeparatorRe :: rx where
  "leadingSeparatorRe =
     seqs [Bol, Chr (\<lambda>c. c = code CHR '','' \<or> c = code CHR '':'' \<or> c = code CHR ''-''),
           Star isWhiteSpace]"

definition trailingRe :: rx where
  "trailingRe = seqs [oneOrMore (\<lambda>c. c = code CHR '','' \<or> isWhiteSpace c), Eol]"

record hit =
  hitField :: jsstring
  matchIndex :: nat
  valueStart :: nat

record fill =
  fillField :: jsstring
  fillValue :: jsstring

text \<open>\<^verbatim>\<open>m[1] || ""\<close>: the group, or the empty string when it is \<^verbatim>\<open>undefined\<close> (or empty).\<close>

definition groupOrEmpty :: "jsmatch \<Rightarrow> nat \<Rightarrow> jsstring" where
  "groupOrEmpty m n = (case groups m n of None \<Rightarrow> [] | Some g \<Rightarrow> g)"

text \<open>The body of the \<^verbatim>\<open>while\<close> loop of lines 36 to 42.\<close>

definition pushHit :: "(jsstring \<Rightarrow> jsstring) \<Rightarrow> jsmatch \<Rightarrow> hit list \<Rightarrow> hit list" where
  "pushHit u m hits =
     hits @ [\<lparr>hitField = toLowerCase u (groupOrEmpty m 1), matchIndex = index m,
              valueStart = lastIndex m\<rparr>]"

text \<open>The value of one hit, lines 45 to 50.\<close>

definition hitValue :: "jsstring \<Rightarrow> hit list \<Rightarrow> nat \<Rightarrow> jsstring" where
  "hitValue t hits i =
     (let start = valueStart (hits ! i);
          end = (if i + 1 < length hits then matchIndex (hits ! (i + 1)) else length t);
          value = trim (slice t start end);
          value = replaceFirst leadingSeparatorRe value;
          value = replaceFirst trailingRe value
      in value)"

text \<open>The \<^verbatim>\<open>for\<close> loop of lines 44 to 53.\<close>

function valuesLoop :: "jsstring \<Rightarrow> hit list \<Rightarrow> nat \<Rightarrow> fill list \<Rightarrow> fill list" where
  "valuesLoop t hits i out =
     (if i < length hits then
        valuesLoop t hits (i + 1)
          (if hitValue t hits i \<noteq> []
           then out @ [\<lparr>fillField = hitField (hits ! i), fillValue = hitValue t hits i\<rparr>]
           else out)
      else out)"
  by pat_completeness auto
termination
  by (relation "measure (\<lambda>(t, hits, i, out). length hits - i)") auto

declare valuesLoop.simps [simp del]

text \<open>
  \<^verbatim>\<open>final[x.field] = x.value\<close> on the object \<^verbatim>\<open>final\<close>, lines 56 and 57: a key the object has
  keeps its place and takes the new value, a new key goes to the end. (The keys are the
  field names the pattern captures, lower-cased: none is an array index or \<^verbatim>\<open>__proto__\<close>,
  which an object orders or treats in another way.) \<^verbatim>\<open>Object.entries\<close> then lists the
  properties in this order.
\<close>

fun setProp :: "(jsstring \<times> jsstring) list \<Rightarrow> jsstring \<Rightarrow> jsstring \<Rightarrow> (jsstring \<times> jsstring) list" where
  "setProp [] k v = [(k, v)]"
| "setProp ((k', v') # ps) k v = (if k' = k then (k, v) # ps else (k', v') # setProp ps k v)"

fun dedupLoop :: "(jsstring \<times> jsstring) list \<Rightarrow> fill list \<Rightarrow> (jsstring \<times> jsstring) list" where
  "dedupLoop final [] = final"
| "dedupLoop final (x # out) = dedupLoop (setProp final (fillField x) (fillValue x)) out"

text \<open>The \<^verbatim>\<open>while\<close> loop of lines 36 to 42, from \<^verbatim>\<open>hits = []\<close>: the triggers of the text.\<close>

definition userHits :: "(jsstring \<Rightarrow> jsstring) \<Rightarrow> jsstring \<Rightarrow> hit list option" where
  "userHits u t = execLoop userFillRe (pushHit u) t 0 []"

definition parseFillFromUser :: "(jsstring \<Rightarrow> jsstring) \<Rightarrow> jsval \<Rightarrow> fill list outcome" where
  "parseFillFromUser u text =
     (case ToString (if truthy text then text else VStr []) of
        Inl e \<Rightarrow> Throws e
      | Inr s \<Rightarrow>
          let t = trim s in
          if t = [] then Returns []
          else (case userHits u t of
                  None \<Rightarrow> Diverges
                | Some hits \<Rightarrow>
                    let out = valuesLoop t hits 0 [];
                        final = dedupLoop [] out
                    in Returns (map (\<lambda>(field, value). \<lparr>fillField = field, fillValue = value\<rparr>) final)))"

section \<open>The Action Tag Parser and the Reconciler\<close>

text \<open>
  \<^verbatim>\<open>processMessage\<close> of the module with the deterministic extractor, lines 62 to 208. An
  action is \<^verbatim>\<open>{ type, data }\<close>; a \<^verbatim>\<open>fill_input\<close> carries either a \<^verbatim>\<open>field\<close> or a
  \<^verbatim>\<open>selector\<close>, and a value that is JSON data.
\<close>

datatype target = Field jsstring | Selector jsstring

datatype action =
    Scroll_to_section jsstring
  | Scroll_page jsstring
  | Fill_input target jsval

record result =
  rtext :: jsstring
  actions :: "action list"

definition allowedSections :: "jsstring list" where
  "allowedSections = [js ''home'', js ''about'', js ''projects'', js ''contact'']"

definition allowedDirections :: "jsstring list" where
  "allowedDirections = [js ''up'', js ''down'', js ''top'', js ''bottom'']"

definition allowedFields :: "jsstring list" where
  "allowedFields = [js ''name'', js ''email'', js ''message'', js ''search'']"

text \<open>
  The patterns of lines 146, 154, 162 and 192:
  \<^verbatim>\<open>/\[ACTION:scroll_to_section:([a-zA-Z0-9_-]+)\]/g\<close>,
  \<^verbatim>\<open>/\[ACTION:scroll_page:([a-zA-Z0-9_-]+)\]/g\<close>,
  \<^verbatim>\<open>/\[ACTION:fill_input:(\{.*?\})\]/g\<close> and \<^verbatim>\<open>/\[ACTION:[^\]]+\]/g\<close>.
\<close>

definition sectionRe :: rx where
  "sectionRe =
     seqs [lit (js ''[ACTION:scroll_to_section:''), Group 1 (oneOrMore isIdChar), lit (js '']'')]"

definition pageRe :: rx where
  "pageRe =
     seqs [lit (js ''[ACTION:scroll_page:''), Group 1 (oneOrMore isIdChar), lit (js '']'')]"

definition fillRe :: rx where
  "fillRe =
     seqs [lit (js ''[ACTION:fill_input:''),
           Group 1 (seqs [lit (js ''{''), LazyStar (\<lambda>c. \<not> isLineTerminator c), lit (js ''}'')]),
           lit (js '']'')]"

definition actionTagRe :: rx where
  "actionTagRe =
     seqs [lit (js ''[ACTION:''), oneOrMore (\<lambda>c. c \<noteq> code CHR '']''), lit (js '']'')]"

text \<open>The bodies of the loops of lines 147 to 152 and 155 to 160.\<close>

definition sectionBody :: "(jsstring \<Rightarrow> jsstring) \<Rightarrow> jsmatch \<Rightarrow> action list \<Rightarrow> action list" where
  "sectionBody u m acts =
     (let sectionId = toLowerCase u (groupOrEmpty m 1)
      in if sectionId \<in> set allowedSections then acts @ [Scroll_to_section sectionId] else acts)"

definition pageBody :: "(jsstring \<Rightarrow> jsstring) \<Rightarrow> jsmatch \<Rightarrow> action list \<Rightarrow> action list" where
  "pageBody u m acts =
     (let direction = toLowerCase u (groupOrEmpty m 1)
      in if direction \<in> set allowedDirections then acts @ [Scroll_page direction] else acts)"

text \<open>
  Lines 166 to 168: \<^verbatim>\<open>obj?.field ? String(obj.field).toLowerCase() : ""\<close>,
  \<^verbatim>\<open>obj?.selector ? String(obj.selector) : ""\<close> and \<^verbatim>\<open>obj?.value ?? ""\<close>. The first two throw
  when the conversion to a string throws.
\<close>

definition fieldOf :: "(jsstring \<Rightarrow> jsstring) \<Rightarrow> jsval \<Rightarrow> thrown + jsstring" where
  "fieldOf u obj =
     (if truthy (getProp obj (js ''field''))
      then (case ToString (getProp obj (js ''field'')) of
              Inl e \<Rightarrow> Inl e
            | Inr f \<Rightarrow> Inr (toLowerCase u f))
      else Inr [])"

definition selectorOf :: "jsval \<Rightarrow> thrown + jsstring" where
  "selectorOf obj =
     (if truthy (getProp obj (js ''selector''))
      then ToString (getProp obj (js ''selector'')) else Inr [])"

definition valueOf :: "jsval \<Rightarrow> jsval" where
  "valueOf obj =
     (case getProp obj (js ''value'') of
        VUndefined \<Rightarrow> VStr [] | VNull \<Rightarrow> VStr [] | v \<Rightarrow> v)"

text \<open>
  The \<^verbatim>\<open>try\<close> block of lines 165 to 172, which throws when \<^verbatim>\<open>JSON.parse\<close> or a conversion to
  a string throws. \<^verbatim>\<open>JSON.parse\<close> is the runtime's: \<open>parse\<close> gives the value, or \<open>None\<close> when
  it throws a \<^verbatim>\<open>SyntaxError\<close> (as it does on \<^verbatim>\<open>undefined\<close>).
\<close>

definition fillTry ::
  "(jsstring \<Rightarrow> jsval option) \<Rightarrow> (jsstring \<Rightarrow> jsstring) \<Rightarrow> jsmatch \<Rightarrow> action list
   \<Rightarrow> thrown + action list"
where
  "fillTry parse u m acts =
     (case (case groups m 1 of None \<Rightarrow> None | Some payload \<Rightarrow> parse payload) of
        None \<Rightarrow> Inl (Thrown (Some (js ''Unexpected token'')))
      | Some obj \<Rightarrow>
          (case fieldOf u obj of
             Inl e \<Rightarrow> Inl e
           | Inr field \<Rightarrow>
               (case selectorOf obj of
                  Inl e \<Rightarrow> Inl e
                | Inr selector \<Rightarrow>
                    let value = valueOf obj
                    in Inr (if selector \<noteq> [] then acts @ [Fill_input (Selector selector) value]
                            else if field \<noteq> [] \<and> field \<in> set allowedFields
                            then acts @ [Fill_input (Field field) value]
                            else acts))))"

text \<open>The body of the loop of lines 163 to 174: \<^verbatim>\<open>try { ... } catch {}\<close>.\<close>

definition fillBody ::
  "(jsstring \<Rightarrow> jsval option) \<Rightarrow> (jsstring \<Rightarrow> jsstring) \<Rightarrow> jsmatch \<Rightarrow> action list \<Rightarrow> action list"
where
  "fillBody parse u m acts = (case fillTry parse u m acts of Inl e \<Rightarrow> acts | Inr acts' \<Rightarrow> acts')"

text \<open>
  The merge of lines 182 to 189: \<^verbatim>\<open>a.type === "fill_input" && a.data?.field === f.field\<close>,
  and the push when no action passes the test.
\<close>

fun isFillOf :: "jsstring \<Rightarrow> action \<Rightarrow> bool" where
  "isFillOf f (Fill_input (Field g) v) = (g = f)"
| "isFillOf f a = False"

fun mergeLoop :: "action list \<Rightarrow> fill list \<Rightarrow> action list" where
  "mergeLoop acts [] = acts"
| "mergeLoop acts (f # forcedFills) =
     mergeLoop
       (if list_ex (isFillOf (fillField f)) acts then acts
        else acts @ [Fill_input (Field (fillField f)) (VStr (fillValue f))])
       forcedFills"

text \<open>
  What the module takes from its runtime: \<^verbatim>\<open>JSON.parse\<close>, the Unicode part of
  \<^verbatim>\<open>toLowerCase\<close>, and the model. \<open>sendPrompt\<close> stands for lines 68 to 99 and 131 to 135
  (\<^verbatim>\<open>getModel\<close>, the prompt built from the user message and the page snapshot,
  \<^verbatim>\<open>startChat\<close> on the window, \<^verbatim>\<open>sendMessage\<close> and \<^verbatim>\<open>response.text()\<close>): it returns the text
  of the model or throws.
\<close>

record runtime =
  JSON_parse :: "jsstring \<Rightarrow> jsval option"
  unicodeLower :: "jsstring \<Rightarrow> jsstring"
  sendPrompt :: "gemini_turn list \<Rightarrow> jsval \<Rightarrow> jsval \<Rightarrow> thrown + jsstring"

text \<open>The text of lines 192 to 198.\<close>

definition displayText :: "jsstring \<Rightarrow> fill list \<Rightarrow> jsstring" where
  "displayText rawText forcedFills =
     (let cleanedText = trim (replaceAll actionTagRe [] rawText)
      in if length forcedFills > 0
         then js ''Done. Filled: '' @ joinWith (js '', '') (map fillField forcedFills) @ js ''.''
         else cleanedText)"

text \<open>
  The three loops of lines 141 to 174, from \<^verbatim>\<open>actions = []\<close>: the sections, then the page
  directions, then the fills.
\<close>

definition parseActions ::
  "(jsstring \<Rightarrow> jsval option) \<Rightarrow> (jsstring \<Rightarrow> jsstring) \<Rightarrow> jsstring \<Rightarrow> action list option"
where
  "parseActions parse u rawText =
     (case execLoop sectionRe (sectionBody u) rawText 0 [] of
        None \<Rightarrow> None
      | Some acts1 \<Rightarrow>
          (case execLoop pageRe (pageBody u) rawText 0 acts1 of
             None \<Rightarrow> None
           | Some acts2 \<Rightarrow> execLoop fillRe (fillBody parse u) rawText 0 acts2))"

text \<open>The \<^verbatim>\<open>try\<close> block of lines 67 to 200.\<close>

definition tryBlock :: "runtime \<Rightarrow> jsval \<Rightarrow> turn list \<Rightarrow> jsval \<Rightarrow> result outcome" where
  "tryBlock rt userMessage conversationHistory pageContent =
     (case sendPrompt rt (normalizeHistory conversationHistory) userMessage pageContent of
        Inl e \<Rightarrow> Throws e
      | Inr rawText \<Rightarrow>
          (case parseActions (JSON_parse rt) (unicodeLower rt) rawText of
             None \<Rightarrow> Diverges
           | Some acts \<Rightarrow>
               (case parseFillFromUser (unicodeLower rt) userMessage of
                  Throws e \<Rightarrow> Throws e
                | Diverges \<Rightarrow> Diverges
                | Returns fills \<Rightarrow>
                    let forcedFills = filter (\<lambda>x. fillField x \<in> set allowedFields) fills
                    in Returns \<lparr>rtext = displayText rawText forcedFills,
                                actions = mergeLoop acts forcedFills\<rparr>)))"

text \<open>The \<^verbatim>\<open>catch\<close> block of lines 201 to 207: \<^verbatim>\<open>error?.message || "Unknown error"\<close>.\<close>

definition catchBlock :: "thrown \<Rightarrow> result" where
  "catchBlock error =
     \<lparr>rtext = js ''Error: '' @
        (case message error of
           None \<Rightarrow> js ''Unknown error''
         | Some m \<Rightarrow> if m \<noteq> [] then m else js ''Unknown error''),
      actions = []\<rparr>"

definition processMessage :: "runtime \<Rightarrow> jsval \<Rightarrow> turn list \<Rightarrow> jsval \<Rightarrow> result outcome" where
  "processMessage rt userMessage conversationHistory pageContent =
     (case tryBlock rt userMessage conversationHistory pageContent of
        Throws error \<Rightarrow> Returns (catchBlock error)
      | r \<Rightarrow> r)"

section \<open>The module services/geminiService.js\<close>

text \<open>
  \<^verbatim>\<open>processMessage\<close> of \<^verbatim>\<open>services/geminiService.js\<close>, lines 23 to 181. Its window is built by
  the same code (\<open>normalizeHistory\<close>); \<open>send\<close> stands for lines 25 to 79 and 109 to 115. The
  patterns of lines 119 to 122 are \<^verbatim>\<open>/\[ACTION:scroll_to_section:(\w+)\]/g\<close>,
  \<^verbatim>\<open>/\[ACTION:highlight:(.+?)\]/g\<close>, \<^verbatim>\<open>/\[ACTION:click:(.+?)\]/g\<close> and
  \<^verbatim>\<open>/\[ACTION:fill:([^:]+):(.+?)\]/g\<close>; they are run on the text from which line 125 has
  taken the tags out.
\<close>

datatype service_action =
    Service_scroll_to_section "jsstring option"
  | Service_highlight jsstring
  | Service_click jsstring
  | Service_fill jsstring jsstring

record service_result =
  stext :: jsstring
  sactions :: "service_action list"

definition serviceSectionRe :: rx where
  "serviceSectionRe =
     seqs [lit (js ''[ACTION:scroll_to_section:''), Group 1 (oneOrMore isWordChar), lit (js '']'')]"

definition serviceHighlightRe :: rx where
  "serviceHighlightRe =
     seqs [lit (js ''[ACTION:highlight:''),
           Group 1 (lazyOneOrMore (\<lambda>c. \<not> isLineTerminator c)), lit (js '']'')]"

definition serviceClickRe :: rx where
  "serviceClickRe =
     seqs [lit (js ''[ACTION:click:''),
           Group 1 (lazyOneOrMore (\<lambda>c. \<not> isLineTerminator c)), lit (js '']'')]"

definition serviceFillRe :: rx where
  "serviceFillRe =
     seqs [lit (js ''[ACTION:fill:''), Group 1 (oneOrMore (\<lambda>c. c \<noteq> code CHR '':'')),
           lit (js '':''), Group 2 (lazyOneOrMore (\<lambda>c. \<not> isLineTerminator c)), lit (js '']'')]"

text \<open>
  \<^verbatim>\<open>match[n].trim()\<close>, which throws on \<^verbatim>\<open>undefined\<close>. A loop body that has thrown leaves the
  error as the state: what the loop would have done next is not seen.
\<close>

definition trimGroup :: "jsmatch \<Rightarrow> nat \<Rightarrow> thrown + jsstring" where
  "trimGroup m n =
     (case groups m n of
        None \<Rightarrow> Inl (Thrown (Some (js ''Cannot read properties of undefined'')))
      | Some g \<Rightarrow> Inr (trim g))"

definition serviceSectionBody ::
  "jsmatch \<Rightarrow> thrown + service_action list \<Rightarrow> thrown + service_action list" where
  "serviceSectionBody m st =
     (case st of Inl e \<Rightarrow> Inl e
      | Inr acts \<Rightarrow> Inr (acts @ [Service_scroll_to_section (groups m 1)]))"

definition serviceTextBody ::
  "(jsstring \<Rightarrow> service_action) \<Rightarrow> jsmatch \<Rightarrow> thrown + service_action list
   \<Rightarrow> thrown + service_action list" where
  "serviceTextBody mk m st =
     (case st of Inl e \<Rightarrow> Inl e
      | Inr acts \<Rightarrow> (case trimGroup m 1 of Inl e \<Rightarrow> Inl e | Inr x \<Rightarrow> Inr (acts @ [mk x])))"

definition serviceFillBody ::
  "jsmatch \<Rightarrow> thrown + service_action list \<Rightarrow> thrown + service_action list" where
  "serviceFillBody m st =
     (case st of Inl e \<Rightarrow> Inl e
      | Inr acts \<Rightarrow>
          (case trimGroup m 1 of Inl e \<Rightarrow> Inl e
           | Inr selector \<Rightarrow>
               (case trimGroup m 2 of Inl e \<Rightarrow> Inl e
                | Inr value \<Rightarrow> Inr (acts @ [Service_fill selector value]))))"

definition serviceTryBlock ::
  "(gemini_turn list \<Rightarrow> jsval \<Rightarrow> jsval \<Rightarrow> thrown + jsstring) \<Rightarrow> jsval \<Rightarrow> turn list \<Rightarrow> jsval
   \<Rightarrow> service_result outcome" where
  "serviceTryBlock send userMessage conversationHistory pageContent =
     (case send (normalizeHistory conversationHistory) userMessage pageContent of
        Inl e \<Rightarrow> Throws e
      | Inr rawText \<Rightarrow>
          let responseText = replaceAll actionTagRe [] rawText in
          (case execLoop serviceSectionRe serviceSectionBody responseText 0 (Inr []) of
             None \<Rightarrow> Diverges
           | Some st1 \<Rightarrow>
           (case execLoop serviceHighlightRe (serviceTextBody Service_highlight) responseText 0 st1 of
             None \<Rightarrow> Diverges
           | Some st2 \<Rightarrow>
           (case execLoop serviceClickRe (serviceTextBody Service_click) responseText 0 st2 of
             None \<Rightarrow> Diverges
           | Some st3 \<Rightarrow>
           (case execLoop serviceFillRe serviceFillBody responseText 0 st3 of
             None \<Rightarrow> Diverges
           | Some (Inl e) \<Rightarrow> Throws e
           | Some (Inr actionResults) \<Rightarrow>
               Returns \<lparr>stext = trim responseText, sactions = actionResults\<rparr>)))))"

text \<open>The \<^verbatim>\<open>catch\<close> block of lines 160 to 180, for an error that has a \<^verbatim>\<open>message\<close> or none.\<close>

definition messageIncludes :: "thrown \<Rightarrow> jsstring \<Rightarrow> bool" where
  "messageIncludes error s = (case message error of None \<Rightarrow> False | Some m \<Rightarrow> includesStr m s)"

definition serviceCatchBlock :: "thrown \<Rightarrow> service_result" where
  "serviceCatchBlock error =
     \<lparr>stext = js ''I apologize, but I encountered an error. '' @
        (if messageIncludes error (js ''API_KEY'') then js ''API key configuration issue.''
         else if messageIncludes error (js ''quota'') \<or> messageIncludes error (js ''429'')
         then js ''API quota exceeded. Please try again later.''
         else if messageIncludes error (js ''403'') \<or> messageIncludes error (js ''permission'')
         then js ''API access denied. Please verify API permissions.''
         else if messageIncludes error (js ''network'') \<or> messageIncludes error (js ''fetch'')
         then js ''Network error. Please check your internet connection.''
         else js ''Error details: '' @
              (case message error of
                 None \<Rightarrow> js ''Unknown error''
               | Some m \<Rightarrow> if m \<noteq> [] then m else js ''Unknown error'') @ js ''.''),
      sactions = []\<rparr>"

definition serviceProcessMessage ::
  "(gemini_turn list \<Rightarrow> jsval \<Rightarrow> jsval \<Rightarrow> thrown + jsstring) \<Rightarrow> jsval \<Rightarrow> turn list \<Rightarrow> jsval
   \<Rightarrow> service_result outcome" where
  "serviceProcessMessage send userMessage conversationHistory pageContent =
     (case serviceTryBlock send userMessage conversationHistory pageContent of
        Throws error \<Rightarrow> Returns (serviceCatchBlock error)
      | r \<Rightarrow> r)"

section \<open>Patterns that take at least one character\<close>

text \<open>
  A pattern of this shape never matches the empty string, so a loop over its matches
  moves on. Every pattern the source loops over has the shape.
\<close>

fun consumes :: "rx \<Rightarrow> bool" where
  "consumes (Chr p) = True"
| "consumes (Seq a b) = (consumes a \<or> consumes b)"
| "consumes (Alt a b) = (consumes a \<and> consumes b)"
| "consumes (Group n a) = consumes a"
| "consumes r = False"

text \<open>
  The strings a pattern can match, its assertions left aside, and the patterns without a
  capture group: what a successful run of the matcher is read against.
\<close>

fun accepts :: "rx \<Rightarrow> jsstring \<Rightarrow> bool" where
  "accepts (Chr p) w = (\<exists>x. w = [x] \<and> p x)"
| "accepts Eps w = (w = [])"
| "accepts (Seq a b) w = (\<exists>u v. w = u @ v \<and> accepts a u \<and> accepts b v)"
| "accepts (Alt a b) w = (accepts a w \<or> accepts b w)"
| "accepts (Star p) w = list_all p w"
| "accepts (LazyStar p) w = list_all p w"
| "accepts (Group n a) w = accepts a w"
| "accepts WordBoundary w = (w = [])"
| "accepts Bol w = (w = [])"
| "accepts Eol w = (w = [])"

fun groupFree :: "rx \<Rightarrow> bool" where
  "groupFree (Seq a b) = (groupFree a \<and> groupFree b)"
| "groupFree (Alt a b) = (groupFree a \<and> groupFree b)"
| "groupFree (Group n a) = False"
| "groupFree r = True"

section \<open>Notions the properties are stated with\<close>

text \<open>The matches a loop over \<^verbatim>\<open>re.exec(text)\<close> sees, in order, from \<^verbatim>\<open>lastIndex = i\<close>.\<close>

function allMatches :: "rx \<Rightarrow> jsstring \<Rightarrow> nat \<Rightarrow> jsmatch list option" where
  "allMatches re t i =
     (case exec re t i of
        None \<Rightarrow> Some []
      | Some m \<Rightarrow> if i < lastIndex m \<and> lastIndex m \<le> length t
                  then map_option ((#) m) (allMatches re t (lastIndex m)) else None)"
  by pat_completeness auto
termination
  by (relation "measure (\<lambda>(re, t, i). length t - i)") auto

declare allMatches.simps [simp del]

text \<open>
  The field and value of every trigger whose value is not empty, in the order of the
  triggers: what the loop of lines 44 to 53 collects.
\<close>

definition hitFills :: "jsstring \<Rightarrow> hit list \<Rightarrow> fill list" where
  "hitFills t hits =
     map (\<lambda>i. \<lparr>fillField = hitField (hits ! i), fillValue = hitValue t hits i\<rparr>)
       (filter (\<lambda>i. hitValue t hits i \<noteq> []) [0..<length hits])"

text \<open>A list without the later copies of its elements.\<close>

definition keepFirst :: "'a list \<Rightarrow> 'a list" where
  "keepFirst xs = rev (remdups (rev xs))"

text \<open>The value of the last fill of a list that has the given field.\<close>

fun lastValueOf :: "fill list \<Rightarrow> jsstring \<Rightarrow> jsstring option" where
  "lastValueOf [] k = None"
| "lastValueOf (x # xs) k =
     (case lastValueOf xs k of
        Some v \<Rightarrow> Some v
      | None \<Rightarrow> if fillField x = k then Some (fillValue x) else None)"

text \<open>The action that line 187 pushes for a fill of the user.\<close>

definition fillAction :: "fill \<Rightarrow> action" where
  "fillAction f = Fill_input (Field (fillField f)) (VStr (fillValue f))"

section \<open>Example inputs\<close>

text \<open>
  A string in double quotes, five payloads as the model writes them (the third has a
  \<^verbatim>\<open>field\<close> that is an object with a property \<^verbatim>\<open>toString\<close>, the fourth has \<^verbatim>\<open>}]\<close> inside a
  string, the fifth is written on two lines), what \<^verbatim>\<open>JSON.parse\<close> returns for them, and a
  runtime whose model answers with a given text. They are the inputs of the closed
  examples.
\<close>

definition quoted :: "jsstring \<Rightarrow> jsstring" where
  "quoted s = [34] @ s @ [34]"

definition exampleFieldPayload :: jsstring where
  "exampleFieldPayload =
     js ''{'' @ quoted (js ''field'') @ js '':'' @ quoted (js ''NAME'') @ js '','' @
     quoted (js ''value'') @ js '':'' @ quoted (js ''Al'') @ js ''}''"

definition exampleSelectorPayload :: jsstring where
  "exampleSelectorPayload =
     js ''{'' @ quoted (js ''selector'') @ js '':'' @ quoted (js ''#name'') @ js '','' @
     quoted (js ''value'') @ js '':'' @ quoted (js ''Al'') @ js ''}''"

definition exampleThrowingPayload :: jsstring where
  "exampleThrowingPayload =
     js ''{'' @ quoted (js ''selector'') @ js '':'' @ quoted (js ''#x'') @ js '','' @
     quoted (js ''field'') @ js '':{'' @ quoted (js ''toString'') @ js '':1}}''"

definition exampleCloserPayload :: jsstring where
  "exampleCloserPayload =
     js ''{'' @ quoted (js ''field'') @ js '':'' @ quoted (js ''name'') @ js '','' @
     quoted (js ''value'') @ js '':'' @ quoted (js ''a}]b'') @ js ''}''"

definition exampleTwoLinePayload :: jsstring where
  "exampleTwoLinePayload =
     js ''{'' @ quoted (js ''field'') @ js '':'' @ quoted (js ''name'') @ js '','' @ [10] @
     quoted (js ''value'') @ js '':'' @ quoted (js ''x'') @ js ''}''"

definition exampleParse :: "jsstring \<Rightarrow> jsval option" where
  "exampleParse s =
     (if s = exampleFieldPayload
      then Some (VObj [(js ''field'', VStr (js ''NAME'')), (js ''value'', VStr (js ''Al''))])
      else if s = exampleSelectorPayload
      then Some (VObj [(js ''selector'', VStr (js ''#name'')), (js ''value'', VStr (js ''Al''))])
      else if s = exampleThrowingPayload
      then Some (VObj [(js ''selector'', VStr (js ''#x'')),
                       (js ''field'', VObj [(js ''toString'', VNum (js ''1''))])])
      else if s = exampleCloserPayload
      then Some (VObj [(js ''field'', VStr (js ''name'')), (js ''value'', VStr (js ''a}]b''))])
      else if s = exampleTwoLinePayload
      then Some (VObj [(js ''field'', VStr (js ''name'')), (js ''value'', VStr (js ''x''))])
      else None)"

definition exampleRuntime :: "jsstring \<Rightarrow> runtime" where
  "exampleRuntime reply =
     \<lparr>JSON_parse = exampleParse, unicodeLower = (\<lambda>s. s),
      sendPrompt = (\<lambda>history userMessage pageContent. Inr reply)\<rparr>"

text \<open>
  The shape of the two scroll patterns, \<^verbatim>\<open>pre\<close> followed by a group of one or more
  characters of a class and \<^verbatim>\<open>]\<close>, and the text of a tag of that shape.
\<close>

definition tagRe :: "jsstring \<Rightarrow> (jschar \<Rightarrow> bool) \<Rightarrow> rx" where
  "tagRe pre P = seqs [lit pre, Group 1 (oneOrMore P), lit (js '']'')]"

definition tagOf :: "jsstring \<Rightarrow> jsstring \<Rightarrow> jsstring" where
  "tagOf pre body = pre @ body @ js '']''"

text \<open>The pattern matches at index \<open>j\<close> of the text, with the result \<open>m\<close>.\<close>

definition matchesAt :: "rx \<Rightarrow> jsstring \<Rightarrow> nat \<Rightarrow> jsmatch \<Rightarrow> bool" where
  "matchesAt re t j m \<longleftrightarrow>
     j \<le> length t \<and>
     (\<exists>prev' rest' cap. matchAt re (rev (take j t)) (drop j t) = Some (prev', rest', cap)
        \<and> m = \<lparr>index = j, groups = cap, lastIndex = length prev'\<rparr>)"

text \<open>
  The two scroll tags as they stand in a text, and what the class \<^verbatim>\<open>[a-zA-Z0-9_-]+\<close> of their
  group admits.
\<close>

definition sectionTag :: "jsstring \<Rightarrow> jsstring" where
  "sectionTag sectionId = js ''[ACTION:scroll_to_section:'' @ sectionId @ js '']''"

definition pageTag :: "jsstring \<Rightarrow> jsstring" where
  "pageTag direction = js ''[ACTION:scroll_page:'' @ direction @ js '']''"

definition isId :: "jsstring \<Rightarrow> bool" where
  "isId s \<longleftrightarrow> s \<noteq> [] \<and> list_all isIdChar s"

section \<open>The fill tags of a text\<close>

text \<open>
  The text of a tag \<^verbatim>\<open>[ACTION:fill_input:<payload>]\<close>, and a text made of such tags with other
  text before each of them and after the last.
\<close>

definition fillTag :: "jsstring \<Rightarrow> jsstring" where
  "fillTag payload = js ''[ACTION:fill_input:'' @ payload @ js '']''"

fun fillTags :: "(jsstring \<times> jsstring) list \<Rightarrow> jsstring \<Rightarrow> jsstring" where
  "fillTags [] post = post"
| "fillTags ((a, mid) # segs) post =
     a @ fillTag (js ''{'' @ mid @ js ''}'') @ fillTags segs post"

text \<open>
  A text in which no tag opens, and the inside of a payload that stays on one line and
  does not hold the two characters that close a tag.
\<close>

definition noCloser :: "jsstring \<Rightarrow> bool" where
  "noCloser mid \<longleftrightarrow> \<not> sublist (js ''}]'') mid"

definition plainText :: "jsstring \<Rightarrow> bool" where
  "plainText a \<longleftrightarrow> \<not> sublist (js ''[ACTION:fill_input:{'') a"

definition oneLine :: "jsstring \<Rightarrow> bool" where
  "oneLine mid \<longleftrightarrow> list_all (\<lambda>c. \<not> isLineTerminator c) mid \<and> noCloser mid"

text \<open>
  The occurrences of the tag in a text, read from left to right without the pattern.
  \<open>untilCloser\<close> gives the text before the first \<^verbatim>\<open>}]\<close>. A tag begins a text when the text
  begins with \<^verbatim>\<open>[ACTION:fill_input:{\<close>, a \<^verbatim>\<open>}]\<close> follows and no line ends before the first of
  them; its payload runs from the brace to that first \<^verbatim>\<open>}\<close>. \<open>fillPayloads\<close> is the list of
  the payloads of the tags of a text: after a tag the reading goes on behind its \<^verbatim>\<open>]\<close>,
  elsewhere one character further.
\<close>

fun untilCloser :: "jsstring \<Rightarrow> jsstring option" where
  "untilCloser [] = None"
| "untilCloser (c # r) =
     (if prefix (js ''}]'') (c # r) then Some [] else map_option ((#) c) (untilCloser r))"

definition payloadAt :: "jsstring \<Rightarrow> jsstring option" where
  "payloadAt s =
     (if prefix (js ''[ACTION:fill_input:{'') s
      then (case untilCloser (drop (length (js ''[ACTION:fill_input:{'')) s) of
              None \<Rightarrow> None
            | Some mid \<Rightarrow>
                if list_all (\<lambda>c. \<not> isLineTerminator c) mid
                then Some (js ''{'' @ mid @ js ''}'') else None)
      else None)"

function fillPayloads :: "jsstring \<Rightarrow> jsstring list" where
  "fillPayloads [] = []"
| "fillPayloads (x # s) =
     (case payloadAt (x # s) of
        None \<Rightarrow> fillPayloads s
      | Some payload \<Rightarrow> payload # fillPayloads (drop (length (fillTag payload)) (x # s)))"
  by pat_completeness auto
termination
  by (relation "measure length") (auto simp: fillTag_def js_def)

declare fillPayloads.simps(2) [simp del]

text \<open>
  What one tag with a given payload adds to the actions, in the words of the
  specification: nothing when the payload is not JSON or when the conversion of its
  \<^verbatim>\<open>field\<close> or of its \<^verbatim>\<open>selector\<close> to a string throws; else an action with the selector when
  the selector is not empty, whatever the field is; else an action with the lower-cased
  field when that is one of the four allowed fields; else nothing. The value is the
  payload's, or the empty string.
\<close>

definition claimedFill ::
  "(jsstring \<Rightarrow> jsval option) \<Rightarrow> (jsstring \<Rightarrow> jsstring) \<Rightarrow> jsstring \<Rightarrow> action list" where
  "claimedFill parse u payload =
     (case parse payload of
        None \<Rightarrow> []
      | Some obj \<Rightarrow>
          (case (selectorOf obj, fieldOf u obj) of
             (Inr selector, Inr field) \<Rightarrow>
               if selector \<noteq> [] then [Fill_input (Selector selector) (valueOf obj)]
               else if field \<in> set allowedFields then [Fill_input (Field field) (valueOf obj)]
               else []
           | _ \<Rightarrow> []))"

text \<open>
  A reply of the model with four fill tags and a scroll tag: the first payload is not
  JSON, the third has the \<^verbatim>\<open>field\<close> whose conversion throws.
\<close>

definition exampleReply :: jsstring where
  "exampleReply =
     js ''x'' @ fillTag (js ''{oops}'') @ js '' '' @ fillTag exampleFieldPayload
     @ js ''[ACTION:scroll_page:up]'' @ fillTag exampleThrowingPayload @ fillTag exampleSelectorPayload"

section \<open>The scroll tags and the action tags of a text\<close>

text \<open>
  The occurrences of a scroll tag in a text, read without the pattern. A tag
  \<^verbatim>\<open>pre<id>]\<close> begins a text when the text begins with \<open>pre\<close>, at least one character of
  \<^verbatim>\<open>[a-zA-Z0-9_-]\<close> follows, and \<^verbatim>\<open>]\<close> comes after the last of them; \<open>idAt\<close> gives the id.
  \<open>tagIds\<close> is the list of the ids of the tags that begin at the positions of a text, from
  left to right.
\<close>

definition idAt :: "jsstring \<Rightarrow> jsstring \<Rightarrow> jsstring option" where
  "idAt pre s =
     (if prefix pre s
      then (let r = drop (length pre) s; tagId = takeWhile isIdChar r
            in if tagId \<noteq> [] \<and> prefix (js '']'') (dropWhile isIdChar r) then Some tagId
               else None)
      else None)"

fun tagIds :: "jsstring \<Rightarrow> jsstring \<Rightarrow> jsstring list" where
  "tagIds pre [] = []"
| "tagIds pre (x # s) =
     (case idAt pre (x # s) of None \<Rightarrow> tagIds pre s | Some tagId \<Rightarrow> tagId # tagIds pre s)"

text \<open>
  An action tag, \<^verbatim>\<open>[ACTION:\<close> followed by one or more characters other than \<^verbatim>\<open>]\<close> and by \<^verbatim>\<open>]\<close>,
  begins a text (\<open>tagAt\<close>), or is somewhere in it (\<open>hasTag\<close>).
\<close>

definition tagAt :: "jsstring \<Rightarrow> bool" where
  "tagAt s \<longleftrightarrow>
     prefix (js ''[ACTION:'') s \<and>
     (case drop (length (js ''[ACTION:'')) s of [] \<Rightarrow> False | c # r \<Rightarrow> c \<noteq> 93 \<and> 93 \<in> set r)"

fun hasTag :: "jsstring \<Rightarrow> bool" where
  "hasTag [] = False"
| "hasTag (x # s) = (tagAt (x # s) \<or> hasTag s)"

text \<open>
  A text begins with one to seven characters of \<^verbatim>\<open>[ACTION:\<close> and an action tag comes
  directly after them (\<open>joinAt\<close>), or this happens somewhere in it (\<open>canJoin\<close>): taking the
  tag out brings the characters before it next to the characters after it.
\<close>

definition joinAt :: "jsstring \<Rightarrow> bool" where
  "joinAt s \<longleftrightarrow>
     list_ex (\<lambda>k. take k s = take k (js ''[ACTION:'') \<and> tagAt (drop k s)) [1..<8]"

fun canJoin :: "jsstring \<Rightarrow> bool" where
  "canJoin [] = False"
| "canJoin (x # s) = (joinAt (x # s) \<or> canJoin s)"

text \<open>A reply of the model with four scroll tags, two of them for the same section.\<close>

definition exampleScrollReply :: jsstring where
  "exampleScrollReply =
     js ''A[ACTION:scroll_to_section:Home][ACTION:scroll_to_section:unknown_id][ACTION:scroll_page:UP][ACTION:scroll_to_section:home]B''"

chapter \<open>The properties\<close>

section \<open>Properties of the History Normalizer\<close>

lemma skipModel_dropWhile:
  "i \<le> length g \<Longrightarrow> drop (skipModel g i) g = dropWhile (\<lambda>t. grole t = Model) (drop i g)"
proof (induction g i rule: skipModel.induct)
  case (1 g i)
  show ?case
  proof (cases "i < length g \<and> grole (g ! i) = Model")
    case True
    then have d: "drop i g = g ! i # drop (Suc i) g"
      by (simp add: Cons_nth_drop_Suc)
    from True "1.IH" have "drop (skipModel g (i + 1)) g
        = dropWhile (\<lambda>t. grole t = Model) (drop (i + 1) g)"
      by simp
    with True d show ?thesis
      by (subst skipModel.simps) simp
  next
    case False
    show ?thesis
    proof (cases "i < length g")
      case True
      with False have "grole (g ! i) \<noteq> Model" by simp
      moreover from True have "drop i g = g ! i # drop (Suc i) g"
        by (simp add: Cons_nth_drop_Suc)
      ultimately show ?thesis using False
        by (subst skipModel.simps) simp
    next
      case False
      with "1.prems" have "i = length g" by simp
      then show ?thesis
        by (subst skipModel.simps) simp
    qed
  qed
qed

lemma cleanLoop_firstOfRuns_acc:
  "acc \<noteq> [] \<Longrightarrow> cleanLoop acc xs = butlast acc @ firstOfRuns (last acc # xs)"
proof (induction xs arbitrary: acc)
  case Nil
  then show ?case by simp
next
  case (Cons x xs)
  show ?case
  proof (cases "grole (last acc) = grole x")
    case True
    with Cons show ?thesis by simp
  next
    case False
    have "cleanLoop acc (x # xs) = cleanLoop (acc @ [x]) xs"
      using False Cons.prems by simp
    also have "\<dots> = butlast (acc @ [x]) @ firstOfRuns (last (acc @ [x]) # xs)"
      by (rule Cons.IH) simp
    also have "\<dots> = butlast acc @ firstOfRuns (last acc # x # xs)"
      using False Cons.prems by (simp add: butlast_append)
    finally show ?thesis .
  qed
qed

lemma cleanLoop_firstOfRuns: "cleanLoop [] xs = firstOfRuns xs"
proof (cases xs)
  case Nil
  then show ?thesis by simp
next
  case (Cons x xs')
  have "cleanLoop [] (x # xs') = cleanLoop [x] xs'" by simp
  also have "\<dots> = firstOfRuns (x # xs')"
    using cleanLoop_firstOfRuns_acc [of "[x]" xs'] by simp
  finally show ?thesis using Cons by simp
qed

lemma firstOfRuns_hd: "firstOfRuns (x # xs) = x # tl (firstOfRuns (x # xs))"
  by (induction xs arbitrary: x) auto

lemma firstOfRuns_subseq: "subseq (firstOfRuns xs) xs"
proof (induction xs rule: firstOfRuns.induct)
  case (3 x y ys)
  show ?case
  proof (cases "grole x = grole y")
    case True
    obtain t where t: "firstOfRuns (x # ys) = x # t"
      using firstOfRuns_hd [of x ys] by blast
    from 3 True have "subseq (x # t) (x # ys)" by (simp add: t)
    then have "subseq t ys" by simp
    then have "subseq (x # t) (x # y # ys)" by (simp add: list_emb_Cons)
    with True t show ?thesis by simp
  next
    case False
    with 3 show ?thesis by simp
  qed
qed simp_all

lemma firstOfRuns_alternates: "alternates (firstOfRuns xs)"
proof (induction xs rule: firstOfRuns.induct)
  case 1
  then show ?case by (simp add: alternates_def)
next
  case (2 x)
  then show ?case by (simp add: alternates_def)
next
  case (3 x y ys)
  show ?case
  proof (cases "grole x = grole y")
    case True
    with 3 show ?thesis by simp
  next
    case False
    obtain zs where zs: "firstOfRuns (y # ys) = y # zs"
      using firstOfRuns_hd [of y ys] by blast
    from 3 False have alt: "alternates (y # zs)" by (simp add: zs)
    have "alternates (x # y # zs)"
      unfolding alternates_def
    proof (intro allI impI)
      fix i assume "Suc i < length (x # y # zs)"
      then show "grole ((x # y # zs) ! i) \<noteq> grole ((x # y # zs) ! Suc i)"
        using alt False by (cases i) (auto simp: alternates_def)
    qed
    with False zs show ?thesis by simp
  qed
qed

lemma normalizeHistory_eq:
  "normalizeHistory h =
     firstOfRuns (dropWhile (\<lambda>t. grole t = Model) (map toGemini (sliceLast 6 h)))"
proof (cases "h = []")
  case True
  then show ?thesis by (simp add: normalizeHistory_def sliceLast_def)
next
  case False
  then show ?thesis
    using skipModel_dropWhile [of 0 "map toGemini (sliceLast 6 h)"]
    by (simp add: normalizeHistory_def Let_def cleanLoop_firstOfRuns)
qed

text \<open>
  Claim C6. For every conversation log the window is built from the last six turns at
  most (a suffix of the log, every role mapped: \<open>assistant\<close> to \<open>Model\<close>, any other role to
  \<open>User\<close>), in their order; the leading model turns are dropped, so a window that is not
  empty begins with a user turn; every run of equal roles is collapsed to its first turn,
  so the roles alternate; and the empty window is a result like any other.
\<close>

theorem C6_history_window:
  "normalizeHistory h =
     firstOfRuns (dropWhile (\<lambda>t. grole t = Model) (map toGemini (sliceLast 6 h)))
   \<and> (\<exists>k. sliceLast 6 h = drop k h)
   \<and> subseq (normalizeHistory h) (map toGemini (sliceLast 6 h))
   \<and> length (normalizeHistory h) \<le> 6
   \<and> (\<forall>t. grole (toGemini t) = (if role t = js ''assistant'' then Model else User))
   \<and> (normalizeHistory h \<noteq> [] \<longrightarrow> grole (hd (normalizeHistory h)) = User)
   \<and> alternates (normalizeHistory h)
   \<and> normalizeHistory [] = []"
proof -
  let ?g = "map toGemini (sliceLast 6 h)"
  let ?d = "dropWhile (\<lambda>t. grole t = Model) ?g"
  have eq: "normalizeHistory h = firstOfRuns ?d" by (rule normalizeHistory_eq)
  have sub: "subseq (firstOfRuns ?d) ?g"
    using firstOfRuns_subseq [of ?d] 
    by (meson subseq_order.order_trans suffix_dropWhile suffix_imp_subseq)
  have len: "length (firstOfRuns ?d) \<le> 6"
  proof -
    have "length (firstOfRuns ?d) \<le> length ?g" using sub by (rule list_emb_length)
    also have "\<dots> \<le> 6" by (simp add: sliceLast_def)
    finally show ?thesis .
  qed
  have hdU: "firstOfRuns ?d \<noteq> [] \<longrightarrow> grole (hd (firstOfRuns ?d)) = User"
  proof
    assume ne: "firstOfRuns ?d \<noteq> []"
    then have dne: "?d \<noteq> []" by (metis firstOfRuns.simps(1))
    then obtain x xs where d: "?d = x # xs" by (cases ?d) auto
    have "hd (firstOfRuns ?d) = hd ?d"
      using firstOfRuns_hd [of x xs] d by (metis list.sel(1))
    moreover have "grole (hd ?d) \<noteq> Model" using dne by (rule hd_dropWhile)
    ultimately show "grole (hd (firstOfRuns ?d)) = User"
      by (cases "grole (hd ?d)") auto
  qed
  show ?thesis
    using eq sub len hdU firstOfRuns_alternates [of ?d]
    by (auto simp: toGemini_def sliceLast_def normalizeHistory_def)
qed

theorem C6_history_window_witness:
  "normalizeHistory
     [\<lparr>role = js ''assistant'', content = js ''a''\<rparr>,
      \<lparr>role = js ''assistant'', content = js ''b''\<rparr>,
      \<lparr>role = js ''user'', content = js ''c''\<rparr>,
      \<lparr>role = js ''system'', content = js ''d''\<rparr>,
      \<lparr>role = js ''assistant'', content = js ''e''\<rparr>]
   = [\<lparr>grole = User, parts = js ''c''\<rparr>, \<lparr>grole = Model, parts = js ''e''\<rparr>]
   \<and> grole (hd (normalizeHistory
     [\<lparr>role = js ''assistant'', content = js ''a''\<rparr>,
      \<lparr>role = js ''assistant'', content = js ''b''\<rparr>,
      \<lparr>role = js ''user'', content = js ''c''\<rparr>,
      \<lparr>role = js ''system'', content = js ''d''\<rparr>,
      \<lparr>role = js ''assistant'', content = js ''e''\<rparr>])) = User
   \<and> alternates (normalizeHistory
     [\<lparr>role = js ''assistant'', content = js ''a''\<rparr>,
      \<lparr>role = js ''assistant'', content = js ''b''\<rparr>,
      \<lparr>role = js ''user'', content = js ''c''\<rparr>,
      \<lparr>role = js ''system'', content = js ''d''\<rparr>,
      \<lparr>role = js ''assistant'', content = js ''e''\<rparr>])"
proof -
  let ?h = "[\<lparr>role = js ''assistant'', content = js ''a''\<rparr>,
      \<lparr>role = js ''assistant'', content = js ''b''\<rparr>,
      \<lparr>role = js ''user'', content = js ''c''\<rparr>,
      \<lparr>role = js ''system'', content = js ''d''\<rparr>,
      \<lparr>role = js ''assistant'', content = js ''e''\<rparr>]"
  have e: "normalizeHistory ?h
      = [\<lparr>grole = User, parts = js ''c''\<rparr>, \<lparr>grole = Model, parts = js ''e''\<rparr>]"
    by code_simp
  have "(normalizeHistory ?h \<noteq> [] \<longrightarrow> grole (hd (normalizeHistory ?h)) = User)
      \<and> alternates (normalizeHistory ?h)"
    using C6_history_window [of ?h] by blast
  with e show ?thesis by simp
qed

section \<open>Properties of the matcher\<close>

lemma starGreedy_sound:
  "starGreedy p prev rest k = Some m \<Longrightarrow> \<exists>w rest'. rest = w @ rest' \<and> k (rev w @ prev) rest' = Some m"
proof (induction rest arbitrary: prev)
  case Nil
  then show ?case by simp
next
  case (Cons x rest)
  show ?case
  proof (cases "p x \<and> starGreedy p (x # prev) rest k \<noteq> None")
    case True
    with Cons.prems have "starGreedy p (x # prev) rest k = Some m" by auto
    from Cons.IH [OF this] obtain w rest' where "rest = w @ rest'" "k (rev w @ x # prev) rest' = Some m"
      by blast
    then have "x # rest = (x # w) @ rest' \<and> k (rev (x # w) @ prev) rest' = Some m" by simp
    then show ?thesis by blast
  next
    case False
    with Cons.prems have "k prev (x # rest) = Some m" by (auto split: if_splits option.splits)
    then have "x # rest = [] @ (x # rest) \<and> k (rev [] @ prev) (x # rest) = Some m" by simp
    then show ?thesis by blast
  qed
qed

lemma starLazy_sound:
  "starLazy p prev rest k = Some m \<Longrightarrow> \<exists>w rest'. rest = w @ rest' \<and> k (rev w @ prev) rest' = Some m"
proof (induction rest arbitrary: prev)
  case Nil
  then show ?case by simp
next
  case (Cons x rest)
  show ?case
  proof (cases "k prev (x # rest)")
    case (Some a)
    with Cons.prems have "k prev (x # rest) = Some m" by simp
    then have "x # rest = [] @ (x # rest) \<and> k (rev [] @ prev) (x # rest) = Some m" by simp
    then show ?thesis by blast
  next
    case None
    with Cons.prems have "starLazy p (x # prev) rest k = Some m" by (auto split: if_splits)
    from Cons.IH [OF this] obtain w rest' where "rest = w @ rest'" "k (rev w @ x # prev) rest' = Some m"
      by blast
    then have "x # rest = (x # w) @ rest' \<and> k (rev (x # w) @ prev) rest' = Some m" by simp
    then show ?thesis by blast
  qed
qed

lemma matchRx_sound:
  "matchRx re prev rest cap k = Some m \<Longrightarrow>
   \<exists>w rest' cap'. rest = w @ rest' \<and> (consumes re \<longrightarrow> w \<noteq> []) \<and> k (rev w @ prev) rest' cap' = Some m"
proof (induction re arbitrary: prev rest cap k)
  case (Chr p)
  then obtain x rest' where r: "rest = x # rest'" "p x" "k (x # prev) rest' cap = Some m"
    by (cases rest) (auto split: if_splits)
  then have "rest = [x] @ rest' \<and> (consumes (Chr p) \<longrightarrow> [x] \<noteq> []) \<and> k (rev [x] @ prev) rest' cap = Some m" by simp
  then show ?case by blast
next
  case Eps
  then have "rest = [] @ rest \<and> k (rev [] @ prev) rest cap = Some m" by simp
  then show ?case by fastforce
next
  case (Seq a b)
  from Seq.prems have "matchRx a prev rest cap (\<lambda>p' r' c'. matchRx b p' r' c' k) = Some m" by simp
  from Seq.IH(1) [OF this] obtain w1 r1 c1 where
    1: "rest = w1 @ r1" "consumes a \<longrightarrow> w1 \<noteq> []" "matchRx b (rev w1 @ prev) r1 c1 k = Some m" by blast
  from Seq.IH(2) [OF 1(3)] obtain w2 r2 c2 where
    2: "r1 = w2 @ r2" "consumes b \<longrightarrow> w2 \<noteq> []" "k (rev w2 @ rev w1 @ prev) r2 c2 = Some m" by blast
  have "rest = (w1 @ w2) @ r2 \<and> (consumes (Seq a b) \<longrightarrow> w1 @ w2 \<noteq> []) \<and> k (rev (w1 @ w2) @ prev) r2 c2 = Some m"
    using 1 2 by auto
  then show ?case by blast
next
  case (Alt a b)
  show ?case
  proof (cases "matchRx a prev rest cap k")
    case None
    with Alt.prems have "matchRx b prev rest cap k = Some m" by simp
    from Alt.IH(2) [OF this] show ?thesis by auto
  next
    case (Some x)
    with Alt.prems have "matchRx a prev rest cap k = Some m" by simp
    from Alt.IH(1) [OF this] show ?thesis by auto
  qed
next
  case (Star p)
  then have "starGreedy p prev rest (\<lambda>p' r'. k p' r' cap) = Some m" by simp
  from starGreedy_sound [OF this] show ?case by auto
next
  case (LazyStar p)
  then have "starLazy p prev rest (\<lambda>p' r'. k p' r' cap) = Some m" by simp
  from starLazy_sound [OF this] show ?case by auto
next
  case (Group n a)
  from Group.prems have "matchRx a prev rest cap
       (\<lambda>prev' rest' cap'. k prev' rest' (cap'(n \<mapsto> rev (take (length prev' - length prev) prev')))) = Some m"
    by simp
  from Group.IH [OF this] show ?case by auto
next
  case WordBoundary
  then have "rest = [] @ rest \<and> k (rev [] @ prev) rest cap = Some m" by (simp split: if_splits)
  then show ?case by fastforce
next
  case Bol
  then have "rest = [] @ rest \<and> k (rev [] @ prev) rest cap = Some m" by (simp split: if_splits)
  then show ?case by fastforce
next
  case Eol
  then have "rest = [] @ rest \<and> k (rev [] @ prev) rest cap = Some m" by (simp split: if_splits)
  then show ?case by fastforce
qed

lemma matchAt_sound:
  "matchAt re prev rest = Some (prev', rest', cap) \<Longrightarrow>
   \<exists>w. rest = w @ rest' \<and> prev' = rev w @ prev \<and> (consumes re \<longrightarrow> w \<noteq> [])"
  unfolding matchAt_def by (drule matchRx_sound) auto

lemma search_sound:
  "search re prev rest = Some (start, prev', rest', cap) \<Longrightarrow>
   \<exists>v w. rest = v @ w @ rest' \<and> start = rev v @ prev \<and> prev' = rev w @ start
      \<and> (consumes re \<longrightarrow> w \<noteq> []) \<and> matchAt re start (w @ rest') = Some (prev', rest', cap)"
proof (induction rest arbitrary: prev)
  case Nil
  then have m: "matchAt re prev [] = Some (prev', rest', cap)" and s: "start = prev"
    by (auto split: option.splits)
  from matchAt_sound [OF m] obtain w where "[] = w @ rest'" "prev' = rev w @ prev" "consumes re \<longrightarrow> w \<noteq> []"
    by blast
  with m s have "[] = [] @ w @ rest' \<and> start = rev [] @ prev \<and> prev' = rev w @ start
      \<and> (consumes re \<longrightarrow> w \<noteq> []) \<and> matchAt re start (w @ rest') = Some (prev', rest', cap)" by simp
  then show ?case by blast
next
  case (Cons x rest)
  show ?case
  proof (cases "matchAt re prev (x # rest)")
    case None
    with Cons.prems have "search re (x # prev) rest = Some (start, prev', rest', cap)" by simp
    from Cons.IH [OF this] obtain v w where
      "rest = v @ w @ rest'" "start = rev v @ x # prev" "prev' = rev w @ start"
      "consumes re \<longrightarrow> w \<noteq> []" "matchAt re start (w @ rest') = Some (prev', rest', cap)" by blast
    then have "x # rest = (x # v) @ w @ rest' \<and> start = rev (x # v) @ prev \<and> prev' = rev w @ start
      \<and> (consumes re \<longrightarrow> w \<noteq> []) \<and> matchAt re start (w @ rest') = Some (prev', rest', cap)" by simp
    then show ?thesis by blast
  next
    case (Some a)
    with Cons.prems have m: "matchAt re prev (x # rest) = Some (prev', rest', cap)" and s: "start = prev"
      by (auto split: prod.splits)
    from matchAt_sound [OF m] obtain w where "x # rest = w @ rest'" "prev' = rev w @ prev" "consumes re \<longrightarrow> w \<noteq> []"
      by blast
    with m s have "x # rest = [] @ w @ rest' \<and> start = rev [] @ prev \<and> prev' = rev w @ start
      \<and> (consumes re \<longrightarrow> w \<noteq> []) \<and> matchAt re start (w @ rest') = Some (prev', rest', cap)" by simp
    then show ?thesis by blast
  qed
qed

lemma exec_bounds:
  assumes "exec re t i = Some m"
  shows "i \<le> index m \<and> index m \<le> lastIndex m \<and> lastIndex m \<le> length t
     \<and> (consumes re \<longrightarrow> index m < lastIndex m)"
proof -
  from assms have i: "i \<le> length t" by (auto simp: exec_def split: if_splits)
  from assms i obtain start prev' rest' cap where
    s: "search re (rev (take i t)) (drop i t) = Some (start, prev', rest', cap)"
    and m: "m = \<lparr>index = length start, groups = cap, lastIndex = length prev'\<rparr>"
    by (auto simp: exec_def split: option.splits)
  from search_sound [OF s] obtain v w where
    vw: "drop i t = v @ w @ rest'" "start = rev v @ rev (take i t)" "prev' = rev w @ start"
      "consumes re \<longrightarrow> w \<noteq> []" by blast
  have "length (drop i t) = length v + length w + length rest'" using vw(1) by simp
  then have "length v + length w + i \<le> length t" using i by simp
  with vw m i show ?thesis by auto
qed

lemma execLoop_returns:
  "consumes re \<Longrightarrow> execLoop re body t i s \<noteq> None"
proof (induction re body t i s rule: execLoop.induct)
  case (1 re body t i s)
  show ?case
  proof (cases "exec re t i")
    case None
    then show ?thesis by (simp add: execLoop.simps)
  next
    case (Some m)
    from exec_bounds [OF Some] "1.prems" have b: "i < lastIndex m \<and> lastIndex m \<le> length t" by auto
    with "1.IH" [OF Some] "1.prems" have "execLoop re body t (lastIndex m) (body m s) \<noteq> None" by simp
    with Some b show ?thesis by (simp add: execLoop.simps)
  qed
qed

lemma starGreedy_accepts:
  "starGreedy p prev rest k = Some m \<Longrightarrow>
   \<exists>w rest'. rest = w @ rest' \<and> list_all p w \<and> k (rev w @ prev) rest' = Some m"
proof (induction rest arbitrary: prev)
  case Nil
  then show ?case by simp
next
  case (Cons x rest)
  show ?case
  proof (cases "p x \<and> starGreedy p (x # prev) rest k \<noteq> None")
    case True
    with Cons.prems have "starGreedy p (x # prev) rest k = Some m" by auto
    from Cons.IH [OF this] obtain w rest' where
      "rest = w @ rest'" "list_all p w" "k (rev w @ x # prev) rest' = Some m" by blast
    with True have "x # rest = (x # w) @ rest' \<and> list_all p (x # w)
        \<and> k (rev (x # w) @ prev) rest' = Some m" by simp
    then show ?thesis by blast
  next
    case False
    with Cons.prems have "k prev (x # rest) = Some m" by (auto split: if_splits option.splits)
    then have "x # rest = [] @ (x # rest) \<and> list_all p [] \<and> k (rev [] @ prev) (x # rest) = Some m"
      by simp
    then show ?thesis by blast
  qed
qed

lemma starLazy_accepts:
  "starLazy p prev rest k = Some m \<Longrightarrow>
   \<exists>w rest'. rest = w @ rest' \<and> list_all p w \<and> k (rev w @ prev) rest' = Some m"
proof (induction rest arbitrary: prev)
  case Nil
  then show ?case by simp
next
  case (Cons x rest)
  show ?case
  proof (cases "k prev (x # rest)")
    case (Some a)
    with Cons.prems have "k prev (x # rest) = Some m" by simp
    then have "x # rest = [] @ (x # rest) \<and> list_all p [] \<and> k (rev [] @ prev) (x # rest) = Some m"
      by simp
    then show ?thesis by blast
  next
    case None
    with Cons.prems have px: "p x" and "starLazy p (x # prev) rest k = Some m"
      by (auto split: if_splits)
    from Cons.IH [OF this(2)] obtain w rest' where
      "rest = w @ rest'" "list_all p w" "k (rev w @ x # prev) rest' = Some m" by blast
    with px have "x # rest = (x # w) @ rest' \<and> list_all p (x # w)
        \<and> k (rev (x # w) @ prev) rest' = Some m" by simp
    then show ?thesis by blast
  qed
qed

lemma matchRx_accepts:
  "matchRx re prev rest cap k = Some m \<Longrightarrow>
   \<exists>w rest' cap'. rest = w @ rest' \<and> accepts re w \<and> (groupFree re \<longrightarrow> cap' = cap)
      \<and> k (rev w @ prev) rest' cap' = Some m"
proof (induction re arbitrary: prev rest cap k)
  case (Chr p)
  then obtain x rest' where r: "rest = x # rest'" "p x" "k (x # prev) rest' cap = Some m"
    by (cases rest) (auto split: if_splits)
  then have "rest = [x] @ rest' \<and> accepts (Chr p) [x] \<and> k (rev [x] @ prev) rest' cap = Some m"
    by simp
  then show ?case by blast
next
  case Eps
  then have "rest = [] @ rest \<and> accepts Eps [] \<and> k (rev [] @ prev) rest cap = Some m" by simp
  then show ?case by blast
next
  case (Seq a b)
  from Seq.prems have "matchRx a prev rest cap (\<lambda>p' r' c'. matchRx b p' r' c' k) = Some m" by simp
  from Seq.IH(1) [OF this] obtain w1 r1 c1 where
    1: "rest = w1 @ r1" "accepts a w1" "groupFree a \<longrightarrow> c1 = cap"
       "matchRx b (rev w1 @ prev) r1 c1 k = Some m" by blast
  from Seq.IH(2) [OF 1(4)] obtain w2 r2 c2 where
    2: "r1 = w2 @ r2" "accepts b w2" "groupFree b \<longrightarrow> c2 = c1"
       "k (rev w2 @ rev w1 @ prev) r2 c2 = Some m" by blast
  have "rest = (w1 @ w2) @ r2 \<and> accepts (Seq a b) (w1 @ w2) \<and> (groupFree (Seq a b) \<longrightarrow> c2 = cap)
      \<and> k (rev (w1 @ w2) @ prev) r2 c2 = Some m"
    using 1 2 by auto
  then show ?case by blast
next
  case (Alt a b)
  show ?case
  proof (cases "matchRx a prev rest cap k")
    case None
    with Alt.prems have "matchRx b prev rest cap k = Some m" by simp
    from Alt.IH(2) [OF this] show ?thesis by auto
  next
    case (Some x)
    with Alt.prems have "matchRx a prev rest cap k = Some m" by simp
    from Alt.IH(1) [OF this] show ?thesis by auto
  qed
next
  case (Star p)
  then have "starGreedy p prev rest (\<lambda>p' r'. k p' r' cap) = Some m" by simp
  from starGreedy_accepts [OF this] show ?case by auto
next
  case (LazyStar p)
  then have "starLazy p prev rest (\<lambda>p' r'. k p' r' cap) = Some m" by simp
  from starLazy_accepts [OF this] show ?case by auto
next
  case (Group n a)
  from Group.prems have "matchRx a prev rest cap
       (\<lambda>prev' rest' cap'. k prev' rest' (cap'(n \<mapsto> rev (take (length prev' - length prev) prev')))) = Some m"
    by simp
  from Group.IH [OF this] show ?case by auto
next
  case WordBoundary
  then have "rest = [] @ rest \<and> accepts WordBoundary [] \<and> k (rev [] @ prev) rest cap = Some m"
    by (simp split: if_splits)
  then show ?case by blast
next
  case Bol
  then have "rest = [] @ rest \<and> accepts Bol [] \<and> k (rev [] @ prev) rest cap = Some m"
    by (simp split: if_splits)
  then show ?case by blast
next
  case Eol
  then have "rest = [] @ rest \<and> accepts Eol [] \<and> k (rev [] @ prev) rest cap = Some m"
    by (simp split: if_splits)
  then show ?case by blast
qed

lemma matchRx_Group_accepts:
  assumes "matchRx (Group n a) prev rest cap k = Some m"
  shows "\<exists>w rest' cap'. rest = w @ rest' \<and> accepts a w \<and> k (rev w @ prev) rest' (cap'(n \<mapsto> w)) = Some m"
proof -
  from assms have "matchRx a prev rest cap
       (\<lambda>prev' rest' cap'. k prev' rest' (cap'(n \<mapsto> rev (take (length prev' - length prev) prev')))) = Some m"
    by simp
  from matchRx_accepts [OF this] obtain w rest' cap' where
    "rest = w @ rest'" "accepts a w"
    "k (rev w @ prev) rest' (cap'(n \<mapsto> rev (take (length (rev w @ prev) - length prev) (rev w @ prev)))) = Some m"
    by blast
  then show ?thesis by auto
qed

lemma matchRx_lit:
  "matchRx (lit s) prev rest cap k =
     (if prefix s rest then k (rev s @ prev) (drop (length s) rest) cap else None)"
proof (induction s arbitrary: prev rest)
  case Nil
  then show ?case by simp
next
  case (Cons c s)
  show ?case
  proof (cases rest)
    case Nil
    then show ?thesis by simp
  next
    case (Cons x rest')
    show ?thesis
    proof (cases "x = c")
      case True
      with Cons Cons.IH [of "c # prev" rest'] show ?thesis by simp
    next
      case False
      with Cons show ?thesis by simp
    qed
  qed
qed

lemma accepts_lit: "accepts (lit s) w \<longleftrightarrow> w = s"
  by (induction s arbitrary: w) (auto simp: Cons_eq_append_conv)

lemma accepts_litCI: "accepts (litCI s) w \<longleftrightarrow> map asciiLower w = s"
proof (induction s arbitrary: w)
  case Nil
  then show ?case by simp
next
  case (Cons c s)
  show ?case
  proof
    assume "accepts (litCI (c # s)) w"
    then obtain x v where "w = [x] @ v" "asciiLower x = c" "accepts (litCI s) v" by auto
    with Cons.IH [of v] show "map asciiLower w = c # s" by simp
  next
    assume "map asciiLower w = c # s"
    then obtain x v where w: "w = x # v" "asciiLower x = c" "map asciiLower v = s"
      by (auto simp: map_eq_Cons_conv)
    with Cons.IH [of v] have "w = [x] @ v \<and> accepts (Chr (\<lambda>y. asciiLower y = c)) [x]
        \<and> accepts (litCI s) v" by simp
    then show "accepts (litCI (c # s)) w" by (simp del: append.simps) blast
  qed
qed

lemma starGreedy_max:
  assumes "\<And>p' x r'. P x \<Longrightarrow> k p' (x # r') = None"
  shows "starGreedy P prev rest k = k (rev (takeWhile P rest) @ prev) (dropWhile P rest)"
proof (induction rest arbitrary: prev)
  case Nil
  then show ?case by simp
next
  case (Cons x rest)
  show ?case
  proof (cases "P x")
    case True
    have "k prev (x # rest) = None" using assms [OF True] .
    with True Cons.IH [of "x # prev"] show ?thesis
      by (cases "k (rev (takeWhile P rest) @ x # prev) (dropWhile P rest)") simp_all
  next
    case False
    then show ?thesis by simp
  qed
qed

section \<open>Properties of the loops of the extractor\<close>

lemma execLoop_fold:
  "execLoop re body t i s = map_option (\<lambda>ms. fold body ms s) (allMatches re t i)"
proof (induction re body t i s rule: execLoop.induct)
  case (1 re body t i s)
  show ?case
  proof (cases "exec re t i")
    case None
    then show ?thesis by (simp add: execLoop.simps allMatches.simps)
  next
    case (Some m)
    show ?thesis
    proof (cases "i < lastIndex m \<and> lastIndex m \<le> length t")
      case True
      with "1.IH" [OF Some] have "execLoop re body t (lastIndex m) (body m s)
          = map_option (\<lambda>ms. fold body ms (body m s)) (allMatches re t (lastIndex m))" by simp
      with Some True show ?thesis
        by (simp add: execLoop.simps [of re body t i] allMatches.simps [of re t i]
            option.map_comp comp_def)
    next
      case False
      with Some show ?thesis
        by (auto simp: execLoop.simps [of re body t i] allMatches.simps [of re t i])
    qed
  qed
qed

lemma allMatches_returns: "consumes re \<Longrightarrow> allMatches re t i \<noteq> None"
  using execLoop_returns [of re "\<lambda>m s. s" t i "()"] by (simp add: execLoop_fold)

lemma allMatches_exec:
  "allMatches re t i = Some ms \<Longrightarrow> m \<in> set ms \<Longrightarrow> \<exists>j. exec re t j = Some m"
proof (induction re t i arbitrary: ms rule: allMatches.induct)
  case (1 re t i)
  show ?case
  proof (cases "exec re t i")
    case None
    with "1.prems" show ?thesis by (simp add: allMatches.simps [of re t i])
  next
    case (Some m0)
    with "1.prems"(1) obtain ms' where
      b: "i < lastIndex m0 \<and> lastIndex m0 \<le> length t"
      and r: "allMatches re t (lastIndex m0) = Some ms'" and ms: "ms = m0 # ms'"
      by (auto simp: allMatches.simps [of re t i] split: if_splits)
    show ?thesis
    proof (cases "m = m0")
      case True
      with Some show ?thesis by blast
    next
      case False
      with ms "1.prems"(2) have "m \<in> set ms'" by simp
      from "1.IH" [OF Some b r this] show ?thesis .
    qed
  qed
qed

lemma fold_pushHit:
  "fold (pushHit u) ms hits =
     hits @ map (\<lambda>m. \<lparr>hitField = toLowerCase u (groupOrEmpty m 1), matchIndex = index m,
                      valueStart = lastIndex m\<rparr>) ms"
  by (induction ms arbitrary: hits) (simp_all add: pushHit_def)

lemma valuesLoop_eq:
  "valuesLoop t hits i out =
     out @ map (\<lambda>i. \<lparr>fillField = hitField (hits ! i), fillValue = hitValue t hits i\<rparr>)
             (filter (\<lambda>i. hitValue t hits i \<noteq> []) [i..<length hits])"
proof (induction t hits i out rule: valuesLoop.induct)
  case (1 t hits i out)
  show ?case
  proof (cases "i < length hits")
    case True
    then have u: "[i..<length hits] = i # [i + 1..<length hits]" by (simp add: upt_conv_Cons)
    from True "1.IH" show ?thesis
      by (subst valuesLoop.simps) (simp add: u)
  next
    case False
    then show ?thesis by (subst valuesLoop.simps) simp
  qed
qed

lemma valuesLoop_hitFills: "valuesLoop t hits 0 [] = hitFills t hits"
  by (simp add: valuesLoop_eq hitFills_def)

lemma setProp_keys: "map fst (setProp ps k v) = (if k \<in> fst ` set ps then map fst ps else map fst ps @ [k])"
  by (induction ps) force+

lemma setProp_map_of: "map_of (setProp ps k v) = (map_of ps)(k \<mapsto> v)"
  by (induction ps) (auto simp: fun_eq_iff)

lemma setProp_distinct: "distinct (map fst ps) \<Longrightarrow> distinct (map fst (setProp ps k v))"
  by (simp add: setProp_keys)

lemma remdups_mid: "y \<in> set ys \<Longrightarrow> remdups (xs @ y # ys) = remdups (xs @ ys)"
  by (induction xs) auto

lemma keepFirst_snoc: "keepFirst (xs @ [x]) = (if x \<in> set xs then keepFirst xs else keepFirst xs @ [x])"
  by (simp add: keepFirst_def)

lemma distinct_keepFirst [simp]: "distinct (keepFirst xs)"
  by (simp add: keepFirst_def)

lemma set_keepFirst [simp]: "set (keepFirst xs) = set xs"
  by (simp add: keepFirst_def)

lemma dedupLoop_props:
  "distinct (map fst final) \<Longrightarrow> 
   distinct (map fst (dedupLoop final out))
   \<and> map fst (dedupLoop final out) = keepFirst (map fst final @ map fillField out)
   \<and> map_of (dedupLoop final out) = map_of final ++ map_of (rev (map (\<lambda>x. (fillField x, fillValue x)) out))"
proof (induction out arbitrary: final)
  case Nil
  then show ?case by (simp add: keepFirst_def distinct_remdups_id)
next
  case (Cons x out)
  let ?f = "setProp final (fillField x) (fillValue x)"
  have d: "distinct (map fst ?f)" using Cons.prems by (rule setProp_distinct)
  have k: "keepFirst (map fst ?f @ map fillField out) = keepFirst (map fst final @ map fillField (x # out))"
  proof (cases "fillField x \<in> fst ` set final")
    case True
    then have "fillField x \<in> set (rev (map fst final))" by simp
    from remdups_mid [OF this, of "rev (map fillField out)"] True show ?thesis
      by (simp add: setProp_keys keepFirst_def)
  next
    case False
    then show ?thesis by (simp add: setProp_keys keepFirst_def)
  qed
  have m: "map_of ?f ++ map_of (rev (map (\<lambda>x. (fillField x, fillValue x)) out))
      = map_of final ++ map_of (rev (map (\<lambda>x. (fillField x, fillValue x)) (x # out)))"
    by (simp add: setProp_map_of fun_eq_iff map_add_def split: option.splits)
  from Cons.IH [OF d] have
    "distinct (map fst (dedupLoop ?f out))"
    "map fst (dedupLoop ?f out) = keepFirst (map fst ?f @ map fillField out)"
    "map_of (dedupLoop ?f out) = map_of ?f ++ map_of (rev (map (\<lambda>x. (fillField x, fillValue x)) out))"
    by blast+
  with k m show ?case by (simp del: map_of_append rev.simps list.map)
qed

section \<open>Properties of the Deterministic Intent Extractor\<close>

lemma consumes_userFillRe: "consumes userFillRe"
  by (simp add: userFillRe_def js_def oneOrMore_def)

lemma userHits_eq:
  "\<exists>ms. allMatches userFillRe t 0 = Some ms \<and>
     userHits u t = Some (map (\<lambda>m. \<lparr>hitField = toLowerCase u (groupOrEmpty m 1),
                                     matchIndex = index m, valueStart = lastIndex m\<rparr>) ms)"
proof -
  obtain ms where ms: "allMatches userFillRe t 0 = Some ms"
    using allMatches_returns [OF consumes_userFillRe, of t 0] by auto
  then show ?thesis
    by (simp add: userHits_def execLoop_fold fold_pushHit)
qed

lemma userHits_returns: "\<exists>hits. userHits u t = Some hits"
  using userHits_eq [of t u] by blast

lemma trim_blank: "list_all isWhiteSpace s \<Longrightarrow> trim s = []"
proof -
  assume "list_all isWhiteSpace s"
  then have e: "dropWhile isWhiteSpace s = []"
    by (induction s) auto
  show ?thesis unfolding trim_def e by simp
qed

lemma ToString_falsy: "\<not> truthy text \<Longrightarrow> \<exists>s. ToString text = Inr s"
  by (cases "text") auto

lemma parseFillFromUser_eq:
  assumes "ToString (if truthy text then text else VStr []) = Inr s"
  shows "\<exists>hits. userHits u (trim s) = Some hits \<and>
     parseFillFromUser u text =
       Returns (map (\<lambda>(field, value). \<lparr>fillField = field, fillValue = value\<rparr>)
                  (dedupLoop [] (if trim s = [] then [] else hitFills (trim s) hits)))"
proof -
  obtain hits where h: "userHits u (trim s) = Some hits" using userHits_returns by blast
  with assms show ?thesis
    by (auto simp: parseFillFromUser_def Let_def valuesLoop_hitFills)
qed

text \<open>
  Claim C10. On an input that is \<^verbatim>\<open>null\<close>, \<^verbatim>\<open>undefined\<close>, falsy in another way, or a string
  of white space only, the extractor returns the empty sequence: it neither throws nor
  loops. On any input at all it returns, unless the conversion of the input to a string
  throws (which \<^verbatim>\<open>String\<close> does on no string, number, boolean, \<^verbatim>\<open>null\<close> or \<^verbatim>\<open>undefined\<close>).
\<close>

theorem C10_falsy_or_blank_input:
  "(\<not> truthy text \<or> (\<exists>s. text = VStr s \<and> list_all isWhiteSpace s)
      \<longrightarrow> parseFillFromUser u text = Returns [])
   \<and> ((\<exists>fills. parseFillFromUser u text = Returns fills)
      \<or> (\<exists>e. ToString text = Inl e \<and> parseFillFromUser u text = Throws e))"
proof
  show "\<not> truthy text \<or> (\<exists>s. text = VStr s \<and> list_all isWhiteSpace s)
      \<longrightarrow> parseFillFromUser u text = Returns []"
  proof
    assume "\<not> truthy text \<or> (\<exists>s. text = VStr s \<and> list_all isWhiteSpace s)"
    then show "parseFillFromUser u text = Returns []"
    proof
      assume "\<not> truthy text"
      then show ?thesis by (simp add: parseFillFromUser_def trim_def)
    next
      assume "\<exists>s. text = VStr s \<and> list_all isWhiteSpace s"
      then obtain s where s: "text = VStr s" "list_all isWhiteSpace s" by blast
      then show ?thesis by (simp add: parseFillFromUser_def trim_blank)
    qed
  qed
next
  show "(\<exists>fills. parseFillFromUser u text = Returns fills)
      \<or> (\<exists>e. ToString text = Inl e \<and> parseFillFromUser u text = Throws e)"
  proof (cases "ToString (if truthy text then text else VStr [])")
    case (Inl e)
    then have "truthy text" by (auto split: if_splits)
    with Inl show ?thesis by (simp add: parseFillFromUser_def)
  next
    case (Inr s)
    from parseFillFromUser_eq [OF this] show ?thesis by blast
  qed
qed

theorem C10_falsy_or_blank_input_witness:
  "parseFillFromUser id VNull = Returns []
   \<and> parseFillFromUser id VUndefined = Returns []
   \<and> parseFillFromUser id (VNum (js ''0'')) = Returns []
   \<and> parseFillFromUser id (VStr (js '' '' @ [9, 10, 160, 8232])) = Returns []"
proof -
  have w: "list_all isWhiteSpace (js '' '' @ [9, 10, 160, 8232])"
    by (simp add: js_def isWhiteSpace_def)
  show ?thesis
    using C10_falsy_or_blank_input [of VNull id] C10_falsy_or_blank_input [of VUndefined id]
      C10_falsy_or_blank_input [of "VNum (js ''0'')" id]
      C10_falsy_or_blank_input [of "VStr (js '' '' @ [9, 10, 160, 8232])" id] w
    by simp
qed

lemma lastValueOf_append:
  "lastValueOf (xs @ ys) k = (case lastValueOf ys k of Some v \<Rightarrow> Some v | None \<Rightarrow> lastValueOf xs k)"
  by (induction xs) (auto split: option.splits)

lemma lastValueOf_map_of:
  "lastValueOf out k = map_of (rev (map (\<lambda>x. (fillField x, fillValue x)) out)) k"
  by (induction out) (auto simp: map_add_def split: option.splits)

lemma userHits_empty: "userHits u [] = Some []"
  by (simp add: userHits_def execLoop.simps exec_def matchAt_def userFillRe_def isWordBoundary_def)

lemma parseFillFromUser_props:
  assumes "ToString (if truthy text then text else VStr []) = Inr s"
  shows "\<exists>hits fills. userHits u (trim s) = Some hits \<and> parseFillFromUser u text = Returns fills
      \<and> distinct (map fillField fills)
      \<and> map fillField fills = keepFirst (map fillField (hitFills (trim s) hits))
      \<and> (\<forall>f \<in> set fills. lastValueOf (hitFills (trim s) hits) (fillField f) = Some (fillValue f))"
proof -
  from parseFillFromUser_eq [OF assms, of u] obtain hits where
    h: "userHits u (trim s) = Some hits"
    and p: "parseFillFromUser u text =
       Returns (map (\<lambda>(field, value). \<lparr>fillField = field, fillValue = value\<rparr>)
                  (dedupLoop [] (if trim s = [] then [] else hitFills (trim s) hits)))"
    by blast
  let ?out = "hitFills (trim s) hits"
  have o: "(if trim s = [] then [] else ?out) = ?out"
    using h by (auto simp: userHits_empty hitFills_def)
  let ?final = "dedupLoop [] ?out"
  let ?fills = "map (\<lambda>(field, value). \<lparr>fillField = field, fillValue = value\<rparr>) ?final"
  have d: "distinct (map fst ?final)"
    and k: "map fst ?final = keepFirst (map fillField ?out)"
    and m: "map_of ?final = map_of (rev (map (\<lambda>x. (fillField x, fillValue x)) ?out))"
    using dedupLoop_props [of "[]" ?out] by simp_all
  have ff: "map fillField ?fills = map fst ?final"
    by (simp add: comp_def case_prod_beta)
  have v: "\<forall>f \<in> set ?fills. lastValueOf ?out (fillField f) = Some (fillValue f)"
  proof
    fix f assume "f \<in> set ?fills"
    then obtain a b where ab: "(a, b) \<in> set ?final" "f = \<lparr>fillField = a, fillValue = b\<rparr>"
      by auto
    from d ab(1) have "map_of ?final a = Some b" by simp
    with m ab(2) show "lastValueOf ?out (fillField f) = Some (fillValue f)"
      by (simp add: lastValueOf_map_of)
  qed
  from h p o d k ff v show ?thesis by simp
qed

text \<open>
  How the closed examples below are computed: the simplifier unfolds the definitions, the
  scrutinee of a \<open>case\<close> first.
\<close>

lemmas regex_eval = matchAt_def js_def code_def oneOrMore_def lazyOneOrMore_def optional_def
  isWhiteSpace_def isLineTerminator_def isWordChar_def isIdChar_def asciiLower_def
  isWordBoundary_def exec_def execLoop.simps replaceFirst_def toLowerCase_def groupOrEmpty_def

lemmas extractor_eval = regex_eval parseFillFromUser_def userHits_def userFillRe_def
  leadingSeparatorRe_def trailingRe_def pushHit_def hitValue_def valuesLoop.simps trim_def
  slice_def Let_def

text \<open>
  Claim C2, as amended. For every user text the extractor returns at most one fill per
  field; the fields are in the order in which they first occur among the triggers whose
  value is not empty; and the value returned for a field is the value of the last trigger
  of that field whose value is not empty.
\<close>

theorem C2_one_fill_per_field:
  assumes "ToString (if truthy text then text else VStr []) = Inr s"
  shows "\<exists>hits fills. userHits u (trim s) = Some hits \<and> parseFillFromUser u text = Returns fills
      \<and> distinct (map fillField fills)
      \<and> map fillField fills = keepFirst (map fillField (hitFills (trim s) hits))
      \<and> (\<forall>f \<in> set fills. lastValueOf (hitFills (trim s) hits) (fillField f) = Some (fillValue f))"
  using parseFillFromUser_props [OF assms] .

theorem C2_one_fill_per_field_witness:
  "parseFillFromUser id (VStr (js ''set message to A. set message to B''))
     = Returns [\<lparr>fillField = js ''message'', fillValue = js ''B''\<rparr>]
   \<and> hitFills (js ''set message to A. set message to B'')
        [\<lparr>hitField = js ''message'', matchIndex = 0, valueStart = 15\<rparr>,
         \<lparr>hitField = js ''message'', matchIndex = 18, valueStart = 33\<rparr>]
     = [\<lparr>fillField = js ''message'', fillValue = js ''A.''\<rparr>,
        \<lparr>fillField = js ''message'', fillValue = js ''B''\<rparr>]
   \<and> lastValueOf (hitFills (js ''set message to A. set message to B'')
        [\<lparr>hitField = js ''message'', matchIndex = 0, valueStart = 15\<rparr>,
         \<lparr>hitField = js ''message'', matchIndex = 18, valueStart = 33\<rparr>]) (js ''message'')
     = Some (js ''B'')"
proof -
  let ?T = "js ''set message to A. set message to B''"
  let ?H = "[\<lparr>hitField = js ''message'', matchIndex = 0, valueStart = 15\<rparr>,
         \<lparr>hitField = js ''message'', matchIndex = 18, valueStart = 33\<rparr>]"
  have t: "trim ?T = ?T" by (simp add: trim_def js_def isWhiteSpace_def)
  have h: "userHits id ?T = Some ?H"
    by (simp add: extractor_eval cong: option.case_cong_weak list.case_cong_weak)
  have p: "parseFillFromUser id (VStr ?T)
     = Returns [\<lparr>fillField = js ''message'', fillValue = js ''B''\<rparr>]"
    by (simp add: extractor_eval cong: option.case_cong_weak list.case_cong_weak sum.case_cong_weak)
  have o: "hitFills ?T ?H = [\<lparr>fillField = js ''message'', fillValue = js ''A.''\<rparr>,
        \<lparr>fillField = js ''message'', fillValue = js ''B''\<rparr>]"
    by (simp add: hitFills_def extractor_eval upt_conv_Cons cong: option.case_cong_weak list.case_cong_weak)
  have "ToString (if truthy (VStr ?T) then VStr ?T else VStr []) = Inr ?T" by (simp add: js_def)
  from C2_one_fill_per_field [OF this, of id] t h p
  have "\<forall>f \<in> set [\<lparr>fillField = js ''message'', fillValue = js ''B''\<rparr>].
      lastValueOf (hitFills ?T ?H) (fillField f) = Some (fillValue f)"
    by auto
  with p o show ?thesis by simp
qed

text \<open>
  The claim as it was stated takes the last trigger of a field and the first occurrence
  of a field among all triggers. In the first text below the last trigger of \<open>name\<close> has
  the empty value, which line 52 drops, and the value returned is that of the earlier one;
  in the second the first trigger of the text is of \<open>name\<close> and is dropped, so \<open>email\<close> is
  returned first.
\<close>

theorem C2_last_trigger_counterexample:
  "userHits id (js ''fill name as Bob, fill name'')
     = Some [\<lparr>hitField = js ''name'', matchIndex = 0, valueStart = 13\<rparr>,
             \<lparr>hitField = js ''name'', matchIndex = 18, valueStart = 27\<rparr>]
   \<and> hitValue (js ''fill name as Bob, fill name'')
        [\<lparr>hitField = js ''name'', matchIndex = 0, valueStart = 13\<rparr>,
         \<lparr>hitField = js ''name'', matchIndex = 18, valueStart = 27\<rparr>] 1 = []
   \<and> parseFillFromUser id (VStr (js ''fill name as Bob, fill name''))
     = Returns [\<lparr>fillField = js ''name'', fillValue = js ''Bob''\<rparr>]
   \<and> userHits id (js ''fill name, fill email as x, fill name as y'')
     = Some [\<lparr>hitField = js ''name'', matchIndex = 0, valueStart = 9\<rparr>,
             \<lparr>hitField = js ''email'', matchIndex = 11, valueStart = 25\<rparr>,
             \<lparr>hitField = js ''name'', matchIndex = 28, valueStart = 41\<rparr>]
   \<and> parseFillFromUser id (VStr (js ''fill name, fill email as x, fill name as y''))
     = Returns [\<lparr>fillField = js ''email'', fillValue = js ''x''\<rparr>,
                \<lparr>fillField = js ''name'', fillValue = js ''y''\<rparr>]"
  by (simp add: extractor_eval cong: option.case_cong_weak list.case_cong_weak sum.case_cong_weak)

lemma search_leadingSeparatorRe_later:
  "prev \<noteq> [] \<Longrightarrow> search leadingSeparatorRe prev rest = None"
  by (induction rest arbitrary: prev) (simp_all add: matchAt_def leadingSeparatorRe_def)

lemma replaceFirst_leadingSeparatorRe_id:
  assumes "v = [] \<or> (hd v \<noteq> code CHR '','' \<and> hd v \<noteq> code CHR '':'' \<and> hd v \<noteq> code CHR ''-'')"
  shows "replaceFirst leadingSeparatorRe v = v"
proof (cases v)
  case Nil
  then show ?thesis by (simp add: replaceFirst_def matchAt_def leadingSeparatorRe_def)
next
  case (Cons x rest)
  with assms have "matchAt leadingSeparatorRe [] (x # rest) = None"
    by (simp add: matchAt_def leadingSeparatorRe_def)
  with Cons show ?thesis
    by (simp add: replaceFirst_def search_leadingSeparatorRe_later)
qed

lemma matchAt_trailingRe:
  assumes "matchAt trailingRe prev rest = Some (prev', rest', cap)"
  shows "rest' = [] \<and> rest \<noteq> [] \<and> list_all (\<lambda>c. c = code CHR '','' \<or> isWhiteSpace c) rest"
proof -
  let ?cls = "\<lambda>c. c = code CHR '','' \<or> isWhiteSpace c"
  from assms have "matchRx (Seq (Chr ?cls) (Star ?cls)) prev rest Map.empty
      (\<lambda>p r c. matchRx Eol p r c (\<lambda>p' r' c'. Some (p', r', c'))) = Some (prev', rest', cap)"
    by (simp add: matchAt_def trailingRe_def oneOrMore_def)
  from matchRx_accepts [OF this] obtain w r1 c1 where
    w: "rest = w @ r1" "accepts (Seq (Chr ?cls) (Star ?cls)) w"
    and e: "matchRx Eol (rev w @ prev) r1 c1 (\<lambda>p' r' c'. Some (p', r', c')) = Some (prev', rest', cap)"
    by blast
  from e have "r1 = []" "rest' = []" by (auto split: if_splits)
  moreover from w(2) have "w \<noteq> [] \<and> list_all ?cls w" by auto
  ultimately show ?thesis using w(1) by simp
qed

lemma replaceFirst_trailingRe_id:
  assumes "v = [] \<or> (last v \<noteq> code CHR '','' \<and> \<not> isWhiteSpace (last v))"
  shows "replaceFirst trailingRe v = v"
proof (cases "search trailingRe [] v")
  case None
  then show ?thesis by (simp add: replaceFirst_def)
next
  case (Some r)
  obtain start prev' rest' cap where r: "r = (start, prev', rest', cap)" by (cases r) auto
  from search_sound [OF Some [unfolded r]] obtain a w where
    v: "v = a @ w @ rest'" and m: "matchAt trailingRe start (w @ rest') = Some (prev', rest', cap)"
    by blast
  from matchAt_trailingRe [OF m] have
    "rest' = []" "w \<noteq> []" "list_all (\<lambda>c. c = code CHR '','' \<or> isWhiteSpace c) w" by auto
  with v have "v \<noteq> [] \<and> (last v = code CHR '','' \<or> isWhiteSpace (last v))"
    by (auto simp: list_all_iff)
  with assms show ?thesis by blast
qed

lemma trim_last: "trim s \<noteq> [] \<Longrightarrow> \<not> isWhiteSpace (last (trim s))"
proof -
  assume a: "trim s \<noteq> []"
  let ?d = "dropWhile isWhiteSpace (rev (dropWhile isWhiteSpace s))"
  from a have ne: "?d \<noteq> []" by (simp add: trim_def)
  then have "\<not> isWhiteSpace (hd ?d)" by (rule hd_dropWhile)
  moreover have "last (trim s) = hd ?d" using ne by (simp add: trim_def last_rev)
  ultimately show ?thesis by simp
qed

lemma hitValue_id:
  assumes "v = trim (slice t (valueStart (hits ! i))
               (if i + 1 < length hits then matchIndex (hits ! (i + 1)) else length t))"
    and "v = [] \<or> (hd v \<noteq> code CHR '','' \<and> hd v \<noteq> code CHR '':'' \<and> hd v \<noteq> code CHR ''-''
          \<and> last v \<noteq> code CHR '','')"
  shows "hitValue t hits i = v"
proof -
  have l: "v = [] \<or> (last v \<noteq> code CHR '','' \<and> \<not> isWhiteSpace (last v))"
    using assms trim_last [of "slice t (valueStart (hits ! i))
               (if i + 1 < length hits then matchIndex (hits ! (i + 1)) else length t)"] by auto
  have "hitValue t hits i = replaceFirst trailingRe (replaceFirst leadingSeparatorRe v)"
    by (simp add: hitValue_def Let_def assms(1))
  also have "\<dots> = v"
    using replaceFirst_leadingSeparatorRe_id [of v] replaceFirst_trailingRe_id [of v] assms(2) l
    by auto
  finally show ?thesis .
qed

lemma lastValueOf_hitFills:
  assumes "i < length hits" "hitValue t hits i \<noteq> []"
    and "\<forall>j. i < j \<and> j < length hits \<and> hitField (hits ! j) = hitField (hits ! i)
           \<longrightarrow> hitValue t hits j = []"
  shows "lastValueOf (hitFills t hits) (hitField (hits ! i)) = Some (hitValue t hits i)"
proof -
  let ?f = "\<lambda>i. \<lparr>fillField = hitField (hits ! i), fillValue = hitValue t hits i\<rparr>"
  let ?P = "\<lambda>i. hitValue t hits i \<noteq> []"
  have g: "i < n \<Longrightarrow> n \<le> length hits \<Longrightarrow>
      lastValueOf (map ?f (filter ?P [0..<n])) (hitField (hits ! i)) = Some (hitValue t hits i)" for n
  proof (induction n)
    case 0
    then show ?case by simp
  next
    case (Suc n)
    show ?case
    proof (cases "i = n")
      case True
      with assms(2) show ?thesis by (simp add: lastValueOf_append)
    next
      case False
      with Suc.prems have lt: "i < n" "n \<le> length hits" "n < length hits" by auto
      from Suc.IH [OF lt(1,2)] have ih: "lastValueOf (map ?f (filter ?P [0..<n])) (hitField (hits ! i))
          = Some (hitValue t hits i)" .
      have "?P n \<Longrightarrow> hitField (hits ! n) \<noteq> hitField (hits ! i)"
        using assms(3) lt by blast
      with ih show ?thesis by (auto simp: lastValueOf_append)
    qed
  qed
  from g [of "length hits"] assms(1) show ?thesis by (simp add: hitFills_def)
qed

text \<open>
  Claim C8, as amended. For every trigger whose candidate span, trimmed, is not empty,
  does not begin with a comma, a colon or a hyphen and does not end with a comma, the
  value of the trigger is the trimmed span, unchanged; and it is the value returned for
  the field when no later trigger of the same field has a value that is not empty.
\<close>

theorem C8_value_is_trimmed_span:
  assumes "ToString (if truthy text then text else VStr []) = Inr s"
    and "userHits u (trim s) = Some hits"
    and "i < length hits"
    and "v = trim (slice (trim s) (valueStart (hits ! i))
               (if i + 1 < length hits then matchIndex (hits ! (i + 1)) else length (trim s)))"
    and "v \<noteq> []"
    and "hd v \<noteq> code CHR '',''" and "hd v \<noteq> code CHR '':''" and "hd v \<noteq> code CHR ''-''"
    and "last v \<noteq> code CHR '',''"
  shows "hitValue (trim s) hits i = v
    \<and> ((\<forall>j. i < j \<and> j < length hits \<and> hitField (hits ! j) = hitField (hits ! i)
             \<longrightarrow> hitValue (trim s) hits j = [])
        \<longrightarrow> (\<exists>fills. parseFillFromUser u text = Returns fills
              \<and> \<lparr>fillField = hitField (hits ! i), fillValue = v\<rparr> \<in> set fills))"
proof
  show hv: "hitValue (trim s) hits i = v"
    using assms(4-9) by (intro hitValue_id) auto
  show "(\<forall>j. i < j \<and> j < length hits \<and> hitField (hits ! j) = hitField (hits ! i)
             \<longrightarrow> hitValue (trim s) hits j = [])
        \<longrightarrow> (\<exists>fills. parseFillFromUser u text = Returns fills
              \<and> \<lparr>fillField = hitField (hits ! i), fillValue = v\<rparr> \<in> set fills)"
  proof
    assume later: "\<forall>j. i < j \<and> j < length hits \<and> hitField (hits ! j) = hitField (hits ! i)
             \<longrightarrow> hitValue (trim s) hits j = []"
    let ?out = "hitFills (trim s) hits"
    from parseFillFromUser_props [OF assms(1), of u] assms(2) obtain fills where
      p: "parseFillFromUser u text = Returns fills"
      and k: "map fillField fills = keepFirst (map fillField ?out)"
      and l: "\<forall>f \<in> set fills. lastValueOf ?out (fillField f) = Some (fillValue f)"
      by auto
    have lv: "lastValueOf ?out (hitField (hits ! i)) = Some v"
      using lastValueOf_hitFills [OF assms(3) _ later] hv assms(5) by simp
    have "\<lparr>fillField = hitField (hits ! i), fillValue = v\<rparr> \<in> set ?out"
      using assms(3,5) hv by (auto simp: hitFills_def)
    then have "hitField (hits ! i) \<in> set (map fillField ?out)" by force
    then have "hitField (hits ! i) \<in> set (map fillField fills)" by (simp add: k)
    then obtain f where f: "f \<in> set fills" "fillField f = hitField (hits ! i)" by auto
    with l lv have "fillValue f = v" by auto
    with f have "f = \<lparr>fillField = hitField (hits ! i), fillValue = v\<rparr>" by simp
    with f(1) p show "\<exists>fills. parseFillFromUser u text = Returns fills
              \<and> \<lparr>fillField = hitField (hits ! i), fillValue = v\<rparr> \<in> set fills" by blast
  qed
qed

theorem C8_value_is_trimmed_span_witness:
  "hitValue (js ''fill email as ved@gmail.com'')
     [\<lparr>hitField = js ''email'', matchIndex = 0, valueStart = 14\<rparr>] 0 = js ''ved@gmail.com''
   \<and> parseFillFromUser id (VStr (js ''fill email as ved@gmail.com''))
     = Returns [\<lparr>fillField = js ''email'', fillValue = js ''ved@gmail.com''\<rparr>]"
proof -
  let ?T = "js ''fill email as ved@gmail.com''"
  let ?H = "[\<lparr>hitField = js ''email'', matchIndex = 0, valueStart = 14\<rparr>]"
  let ?v = "js ''ved@gmail.com''"
  have t: "trim ?T = ?T" by (simp add: trim_def js_def isWhiteSpace_def)
  have s: "ToString (if truthy (VStr ?T) then VStr ?T else VStr []) = Inr ?T"
    by (simp add: js_def)
  have h: "userHits id (trim ?T) = Some ?H"
    unfolding t by (simp add: extractor_eval cong: option.case_cong_weak list.case_cong_weak)
  have i: "0 < length ?H" by simp
  have v: "?v = trim (slice (trim ?T) (valueStart (?H ! 0))
               (if 0 + 1 < length ?H then matchIndex (?H ! (0 + 1)) else length (trim ?T)))"
    unfolding t by (simp add: trim_def slice_def js_def isWhiteSpace_def)
  have n: "?v \<noteq> []" "hd ?v \<noteq> code CHR '',''" "hd ?v \<noteq> code CHR '':''"
    "hd ?v \<noteq> code CHR ''-''" "last ?v \<noteq> code CHR '',''"
    by (simp_all add: js_def code_def)
  have p: "parseFillFromUser id (VStr ?T)
     = Returns [\<lparr>fillField = js ''email'', fillValue = js ''ved@gmail.com''\<rparr>]"
    by (simp add: extractor_eval cong: option.case_cong_weak list.case_cong_weak sum.case_cong_weak)
  from C8_value_is_trimmed_span [OF s h i v n] t p show ?thesis by simp
qed

text \<open>
  The claim as it was stated: a span without trailing punctuation that begins with a
  separator is not returned as it is. Line 49 takes the separator and the white space
  after it away.
\<close>

theorem C8_leading_separator_counterexample:
  "userHits id (js ''set name: Bob'')
     = Some [\<lparr>hitField = js ''name'', matchIndex = 0, valueStart = 8\<rparr>]
   \<and> trim (slice (js ''set name: Bob'') 8 (length (js ''set name: Bob''))) = js '': Bob''
   \<and> hitValue (js ''set name: Bob'')
        [\<lparr>hitField = js ''name'', matchIndex = 0, valueStart = 8\<rparr>] 0 = js ''Bob''
   \<and> parseFillFromUser id (VStr (js ''set name: Bob''))
     = Returns [\<lparr>fillField = js ''name'', fillValue = js ''Bob''\<rparr>]"
  by (simp add: extractor_eval cong: option.case_cong_weak list.case_cong_weak sum.case_cong_weak)

section \<open>Properties of the Reconciler\<close>

lemma asciiLower_ascii: "asciiLower c < 128 \<Longrightarrow> c < 128"
  by (auto simp: asciiLower_def split: if_splits)

lemma toLowerCase_allowed:
  assumes "map asciiLower g \<in> set allowedFields"
  shows "toLowerCase u g = map asciiLower g"
proof -
  from assms have "list_all (\<lambda>c. c < 128) (map asciiLower g)"
    by (auto simp: allowedFields_def js_def)
  then have "list_all (\<lambda>c. c < 128) g"
    by (auto simp: list_all_iff asciiLower_ascii)
  then show ?thesis by (simp add: toLowerCase_def)
qed

lemma matchRx_Seq_accepts:
  assumes "matchRx (Seq a b) prev rest cap k = Some m"
  shows "\<exists>w rest' cap'. rest = w @ rest' \<and> accepts a w \<and> (groupFree a \<longrightarrow> cap' = cap)
     \<and> matchRx b (rev w @ prev) rest' cap' k = Some m"
proof -
  from assms have "matchRx a prev rest cap (\<lambda>p r c. matchRx b p r c k) = Some m" by simp
  from matchRx_accepts [OF this] show ?thesis .
qed

lemma matchAt_userFillRe_group:
  assumes "matchAt userFillRe prev rest = Some (prev', rest', cap)"
  shows "\<exists>g. cap 1 = Some g \<and> map asciiLower g \<in> set allowedFields"
proof -
  let ?K = "\<lambda>p r c. Some (p, r, c)"
  let ?A = "alts [litCI (js ''fill''), litCI (js ''add''), litCI (js ''set'')]"
  let ?W = "oneOrMore isWhiteSpace"
  let ?N = "alts [litCI (js ''name''), litCI (js ''email''), litCI (js ''message''),
                  litCI (js ''search'')]"
  let ?T = "seqs [Star isWhiteSpace, optional (litCI (js ''field'')), Star isWhiteSpace,
         optional (alts [litCI (js ''as''), litCI (js ''to''), litCI (js ''='')]),
         Star isWhiteSpace]"
  have gA: "groupFree ?A" and gW: "groupFree ?W" and gT: "groupFree ?T"
    by (simp_all add: js_def optional_def oneOrMore_def)
  have u: "userFillRe = Seq WordBoundary (Seq ?A (Seq ?W (Seq (Group 1 ?N) ?T)))"
    by (simp add: userFillRe_def)
  from assms have "matchRx (Seq WordBoundary (Seq ?A (Seq ?W (Seq (Group 1 ?N) ?T))))
      prev rest Map.empty ?K = Some (prev', rest', cap)"
    unfolding matchAt_def u .
  from matchRx_Seq_accepts [OF this] obtain p1 r1 c1 where
    "groupFree WordBoundary \<longrightarrow> c1 = Map.empty"
    "matchRx (Seq ?A (Seq ?W (Seq (Group 1 ?N) ?T))) p1 r1 c1 ?K = Some (prev', rest', cap)"
    by blast
  from matchRx_Seq_accepts [OF this(2)] obtain p2 r2 c2 where
    "groupFree ?A \<longrightarrow> c2 = c1"
    "matchRx (Seq ?W (Seq (Group 1 ?N) ?T)) p2 r2 c2 ?K = Some (prev', rest', cap)"
    by blast
  from matchRx_Seq_accepts [OF this(2)] obtain p3 r3 c3 where
    "groupFree ?W \<longrightarrow> c3 = c2"
    "matchRx (Seq (Group 1 ?N) ?T) p3 r3 c3 ?K = Some (prev', rest', cap)"
    by blast
  from this(2) have "matchRx (Group 1 ?N) p3 r3 c3 (\<lambda>p r c. matchRx ?T p r c ?K)
      = Some (prev', rest', cap)"
    by (simp only: matchRx.simps(3))
  from matchRx_Group_accepts [OF this] obtain g r4 c4 where
    g: "accepts ?N g" and "matchRx ?T (rev g @ p3) r4 (c4(1 \<mapsto> g)) ?K = Some (prev', rest', cap)"
    by blast
  from matchRx_accepts [OF this(2)] gT have "cap = c4(1 \<mapsto> g)" by blast
  moreover from g have "map asciiLower g \<in> set allowedFields"
    by (auto simp: accepts_litCI allowedFields_def)
  ultimately show ?thesis by simp
qed

lemma exec_userFillRe_group:
  assumes "exec userFillRe t i = Some m"
  shows "toLowerCase u (groupOrEmpty m 1) \<in> set allowedFields"
proof -
  from assms obtain start prev' rest' cap where
    s: "search userFillRe (rev (take i t)) (drop i t) = Some (start, prev', rest', cap)"
    and m: "groups m = cap"
    by (auto simp: exec_def split: if_splits option.splits)
  from search_sound [OF s] obtain w where
    "matchAt userFillRe start (w @ rest') = Some (prev', rest', cap)" by blast
  from matchAt_userFillRe_group [OF this] obtain g where
    g: "cap 1 = Some g" "map asciiLower g \<in> set allowedFields" by blast
  with m show ?thesis by (simp add: groupOrEmpty_def toLowerCase_allowed)
qed

lemma userHits_allowed:
  assumes "userHits u t = Some hits" "h \<in> set hits"
  shows "hitField h \<in> set allowedFields"
proof -
  from userHits_eq [of t u] assms(1) obtain ms where
    ms: "allMatches userFillRe t 0 = Some ms"
    and hits: "hits = map (\<lambda>m. \<lparr>hitField = toLowerCase u (groupOrEmpty m 1),
                                     matchIndex = index m, valueStart = lastIndex m\<rparr>) ms"
    by auto
  from assms(2) hits obtain m where m: "m \<in> set ms" "hitField h = toLowerCase u (groupOrEmpty m 1)"
    by auto
  from allMatches_exec [OF ms m(1)] obtain j where "exec userFillRe t j = Some m" by blast
  from exec_userFillRe_group [OF this] m(2) show ?thesis by simp
qed

lemma parseFillFromUser_allowed:
  assumes "parseFillFromUser u text = Returns fills"
  shows "filter (\<lambda>x. fillField x \<in> set allowedFields) fills = fills"
proof -
  from assms obtain s where s: "ToString (if truthy text then text else VStr []) = Inr s"
    by (auto simp: parseFillFromUser_def split: sum.splits)
  from parseFillFromUser_props [OF s, of u] assms obtain hits where
    h: "userHits u (trim s) = Some hits"
    and k: "map fillField fills = keepFirst (map fillField (hitFills (trim s) hits))"
    by auto
  have "\<forall>f \<in> set fills. fillField f \<in> set allowedFields"
  proof
    fix f assume "f \<in> set fills"
    then have "fillField f \<in> set (map fillField fills)" by simp
    then have "fillField f \<in> set (map fillField (hitFills (trim s) hits))" by (simp add: k)
    then obtain i where "i < length hits" "fillField f = hitField (hits ! i)"
      by (auto simp: hitFills_def)
    with userHits_allowed [OF h, of "hits ! i"] show "fillField f \<in> set allowedFields" by simp
  qed
  then show ?thesis by (simp add: filter_id_conv)
qed

lemma consumes_tagRes: "consumes sectionRe" "consumes pageRe" "consumes fillRe"
  by (simp_all add: sectionRe_def pageRe_def fillRe_def js_def)

lemma parseActions_returns: "\<exists>acts. parseActions parse u rawText = Some acts"
proof -
  obtain a1 where 1: "execLoop sectionRe (sectionBody u) rawText 0 [] = Some a1"
    using execLoop_returns [OF consumes_tagRes(1), of "sectionBody u" rawText 0 "[]"] by auto
  obtain a2 where 2: "execLoop pageRe (pageBody u) rawText 0 a1 = Some a2"
    using execLoop_returns [OF consumes_tagRes(2), of "pageBody u" rawText 0 a1] by auto
  obtain a3 where 3: "execLoop fillRe (fillBody parse u) rawText 0 a2 = Some a3"
    using execLoop_returns [OF consumes_tagRes(3), of "fillBody parse u" rawText 0 a2] by auto
  from 1 2 3 show ?thesis by (simp add: parseActions_def)
qed

lemma processMessage_returns:
  assumes "sendPrompt rt (normalizeHistory conversationHistory) userMessage pageContent = Inr rawText"
    and "parseFillFromUser (unicodeLower rt) userMessage = Returns fills"
  shows "\<exists>acts. parseActions (JSON_parse rt) (unicodeLower rt) rawText = Some acts
     \<and> processMessage rt userMessage conversationHistory pageContent
        = Returns \<lparr>rtext = displayText rawText fills, actions = mergeLoop acts fills\<rparr>"
proof -
  obtain acts where a: "parseActions (JSON_parse rt) (unicodeLower rt) rawText = Some acts"
    using parseActions_returns by blast
  with assms parseFillFromUser_allowed [OF assms(2)] show ?thesis
    by (simp add: processMessage_def tryBlock_def)
qed

lemmas process_eval = regex_eval extractor_eval processMessage_def tryBlock_def parseActions_def
  sectionRe_def pageRe_def fillRe_def actionTagRe_def sectionBody_def pageBody_def fillBody_def
  fillTry_def fieldOf_def selectorOf_def valueOf_def displayText_def allowedSections_def allowedDirections_def allowedFields_def
  exampleRuntime_def exampleParse_def exampleFieldPayload_def exampleSelectorPayload_def
  exampleThrowingPayload_def exampleCloserPayload_def exampleTwoLinePayload_def quoted_def
  fillAction_def

lemma ex1: "processMessage
     (exampleRuntime (js ''I cannot. [ACTION:fill_input:'' @ exampleFieldPayload @ js '']''))
     (VStr (js ''fill name as Bob, fill email as b@x.io'')) [] VNull
   = Returns \<lparr>rtext = js ''Done. Filled: name, email.'',
        actions = [Fill_input (Field (js ''name'')) (VStr (js ''Al'')),
                   Fill_input (Field (js ''email'')) (VStr (js ''b@x.io''))]\<rparr>"
  by (simp add: process_eval normalizeHistory_def
      cong: option.case_cong_weak list.case_cong_weak sum.case_cong_weak outcome.case_cong_weak)

lemma ex1_fills:
  "parseFillFromUser (unicodeLower (exampleRuntime reply))
     (VStr (js ''fill name as Bob, fill email as b@x.io''))
   = Returns [\<lparr>fillField = js ''name'', fillValue = js ''Bob''\<rparr>,
              \<lparr>fillField = js ''email'', fillValue = js ''b@x.io''\<rparr>]"
  by (simp add: extractor_eval exampleRuntime_def
      cong: option.case_cong_weak list.case_cong_weak sum.case_cong_weak)

lemma ex_send:
  "sendPrompt (exampleRuntime reply) (normalizeHistory []) userMessage VNull = Inr reply"
  by (simp add: exampleRuntime_def)

text \<open>
  Claim C3. Whenever the extractor returns at least one fill for the user message and
  the model call returns a text, whatever that text is, \<^verbatim>\<open>processMessage\<close> returns the text
  \<^verbatim>\<open>Done. Filled: \<close> followed by the fields of the fills, in their order, joined by a comma and
  a space, and a full stop.
\<close>

theorem C3_done_text:
  assumes "sendPrompt rt (normalizeHistory conversationHistory) userMessage pageContent = Inr rawText"
    and "parseFillFromUser (unicodeLower rt) userMessage = Returns fills"
    and "fills \<noteq> []"
  shows "\<exists>acts. processMessage rt userMessage conversationHistory pageContent
     = Returns \<lparr>rtext = js ''Done. Filled: '' @ joinWith (js '', '') (map fillField fills) @ js ''.'',
                actions = acts\<rparr>"
  using processMessage_returns [OF assms(1,2)] assms(3) by (auto simp: displayText_def)

theorem C3_done_text_witness:
  "processMessage
     (exampleRuntime (js ''I cannot. [ACTION:fill_input:'' @ exampleFieldPayload @ js '']''))
     (VStr (js ''fill name as Bob, fill email as b@x.io'')) [] VNull
   = Returns \<lparr>rtext = js ''Done. Filled: name, email.'',
        actions = [Fill_input (Field (js ''name'')) (VStr (js ''Al'')),
                   Fill_input (Field (js ''email'')) (VStr (js ''b@x.io''))]\<rparr>"
proof -
  let ?raw = "js ''I cannot. [ACTION:fill_input:'' @ exampleFieldPayload @ js '']''"
  have n: "[\<lparr>fillField = js ''name'', fillValue = js ''Bob''\<rparr>,
              \<lparr>fillField = js ''email'', fillValue = js ''b@x.io''\<rparr>] \<noteq> []" by simp
  from C3_done_text [OF ex_send ex1_fills n, of ?raw] obtain acts where
    "processMessage (exampleRuntime ?raw) (VStr (js ''fill name as Bob, fill email as b@x.io''))
        [] VNull
      = Returns \<lparr>rtext = js ''Done. Filled: '' @ joinWith (js '', '')
            (map fillField [\<lparr>fillField = js ''name'', fillValue = js ''Bob''\<rparr>,
              \<lparr>fillField = js ''email'', fillValue = js ''b@x.io''\<rparr>]) @ js ''.'',
          actions = acts\<rparr>" by blast
  with ex1 show ?thesis by simp
qed

lemma list_ex_isFillOf_snoc:
  "k \<noteq> fillField f \<Longrightarrow>
   list_ex (isFillOf k) (acts @ [Fill_input (Field (fillField f)) v]) = list_ex (isFillOf k) acts"
  by (auto simp: list_ex_iff)

lemma mergeLoop_eq:
  "distinct (map fillField fs) \<Longrightarrow>
   mergeLoop acts fs =
     acts @ map fillAction (filter (\<lambda>f. \<not> list_ex (isFillOf (fillField f)) acts) fs)"
proof (induction fs arbitrary: acts)
  case Nil
  then show ?case by simp
next
  case (Cons f fs)
  from Cons.prems have d: "distinct (map fillField fs)" and "fillField f \<notin> fillField ` set fs"
    by simp_all
  then have n: "\<forall>g \<in> set fs. fillField g \<noteq> fillField f"
    by (metis image_eqI)
  show ?case
  proof (cases "list_ex (isFillOf (fillField f)) acts")
    case True
    with Cons.IH [OF d, of acts] show ?thesis by simp
  next
    case False
    let ?acts = "acts @ [Fill_input (Field (fillField f)) (VStr (fillValue f))]"
    have "filter (\<lambda>g. \<not> list_ex (isFillOf (fillField g)) ?acts) fs
        = filter (\<lambda>g. \<not> list_ex (isFillOf (fillField g)) acts) fs"
      using n by (intro filter_cong) (auto simp: list_ex_isFillOf_snoc)
    with False Cons.IH [OF d, of ?acts] show ?thesis by (simp add: fillAction_def)
  qed
qed

lemma parseFillFromUser_distinct:
  assumes "parseFillFromUser u text = Returns fills"
  shows "distinct (map fillField fills)"
proof -
  from assms obtain s where s: "ToString (if truthy text then text else VStr []) = Inr s"
    by (auto simp: parseFillFromUser_def split: sum.splits)
  from parseFillFromUser_props [OF s, of u] assms show ?thesis by auto
qed

lemma list_ex_isFillOf: "list_ex (isFillOf k) acts \<longleftrightarrow> (\<exists>v. Fill_input (Field k) v \<in> set acts)"
proof
  assume "list_ex (isFillOf k) acts"
  then obtain a where a: "a \<in> set acts" "isFillOf k a" by (auto simp: list_ex_iff)
  then show "\<exists>v. Fill_input (Field k) v \<in> set acts"
    by (cases "(k, a)" rule: isFillOf.cases) auto
next
  assume "\<exists>v. Fill_input (Field k) v \<in> set acts"
  then show "list_ex (isFillOf k) acts" by (auto simp: list_ex_iff intro: bexI [rotated])
qed

text \<open>
  Claim C1. For every text of the model and every user message, the final actions are
  the actions parsed from the model text, all of them and first, followed by one
  \<^verbatim>\<open>fill_input\<close> for every fill of the user whose field no parsed \<^verbatim>\<open>fill_input\<close> has, in the
  order of the fills. So when both propose a fill of a field, only the model's is in the
  list.
\<close>

theorem C1_merge:
  assumes "sendPrompt rt (normalizeHistory conversationHistory) userMessage pageContent = Inr rawText"
    and "parseFillFromUser (unicodeLower rt) userMessage = Returns fills"
  shows "\<exists>acts. parseActions (JSON_parse rt) (unicodeLower rt) rawText = Some acts
     \<and> processMessage rt userMessage conversationHistory pageContent
        = Returns \<lparr>rtext = displayText rawText fills,
                   actions = acts @ map fillAction
                     (filter (\<lambda>f. \<not> (\<exists>v. Fill_input (Field (fillField f)) v \<in> set acts)) fills)\<rparr>"
proof -
  from processMessage_returns [OF assms] obtain acts where
    a: "parseActions (JSON_parse rt) (unicodeLower rt) rawText = Some acts"
    and p: "processMessage rt userMessage conversationHistory pageContent
        = Returns \<lparr>rtext = displayText rawText fills, actions = mergeLoop acts fills\<rparr>"
    by blast
  from mergeLoop_eq [OF parseFillFromUser_distinct [OF assms(2)], of acts] a p
  show ?thesis by (simp add: list_ex_isFillOf)
qed

lemma ex1_acts:
  "parseActions exampleParse (\<lambda>s. s)
       (js ''I cannot. [ACTION:fill_input:'' @ exampleFieldPayload @ js '']'')
     = Some [Fill_input (Field (js ''name'')) (VStr (js ''Al''))]"
  by (simp add: process_eval
      cong: option.case_cong_weak list.case_cong_weak sum.case_cong_weak outcome.case_cong_weak)

theorem C1_merge_witness:
  "parseActions exampleParse (\<lambda>s. s)
       (js ''I cannot. [ACTION:fill_input:'' @ exampleFieldPayload @ js '']'')
     = Some [Fill_input (Field (js ''name'')) (VStr (js ''Al''))]
   \<and> processMessage
     (exampleRuntime (js ''I cannot. [ACTION:fill_input:'' @ exampleFieldPayload @ js '']''))
     (VStr (js ''fill name as Bob, fill email as b@x.io'')) [] VNull
   = Returns \<lparr>rtext = js ''Done. Filled: name, email.'',
        actions = [Fill_input (Field (js ''name'')) (VStr (js ''Al'')),
                   Fill_input (Field (js ''email'')) (VStr (js ''b@x.io''))]\<rparr>"
proof -
  let ?raw = "js ''I cannot. [ACTION:fill_input:'' @ exampleFieldPayload @ js '']''"
  let ?fills = "[\<lparr>fillField = js ''name'', fillValue = js ''Bob''\<rparr>,
              \<lparr>fillField = js ''email'', fillValue = js ''b@x.io''\<rparr>]"
  from C1_merge [OF ex_send ex1_fills, of ?raw] obtain acts where
    a: "parseActions (JSON_parse (exampleRuntime ?raw)) (unicodeLower (exampleRuntime ?raw)) ?raw
          = Some acts"
    and p: "processMessage (exampleRuntime ?raw)
          (VStr (js ''fill name as Bob, fill email as b@x.io'')) [] VNull
        = Returns \<lparr>rtext = displayText ?raw ?fills,
                   actions = acts @ map fillAction
                     (filter (\<lambda>f. \<not> (\<exists>v. Fill_input (Field (fillField f)) v \<in> set acts)) ?fills)\<rparr>"
    by blast
  from a ex1_acts have acts: "acts = [Fill_input (Field (js ''name'')) (VStr (js ''Al''))]"
    by (simp add: exampleRuntime_def)
  have d: "displayText ?raw ?fills = js ''Done. Filled: name, email.''"
    by (simp add: displayText_def js_def)
  have f: "acts @ map fillAction
       (filter (\<lambda>f. \<not> (\<exists>v. Fill_input (Field (fillField f)) v \<in> set acts)) ?fills)
     = [Fill_input (Field (js ''name'')) (VStr (js ''Al'')),
        Fill_input (Field (js ''email'')) (VStr (js ''b@x.io''))]"
    unfolding acts by (simp add: fillAction_def js_def)
  from p show ?thesis unfolding d f using ex1_acts by simp
qed

text \<open>
  Claim C9. A parsed \<^verbatim>\<open>fill_input\<close> with a selector passes the test of line 184 for no
  field. Every parsed action is in the final list, and a fill of the user is in it too
  whenever no parsed \<^verbatim>\<open>fill_input\<close> carries its field: a selector for what is the same
  input on the page does not keep it out.
\<close>

theorem C9_selector_does_not_block:
  assumes "sendPrompt rt (normalizeHistory conversationHistory) userMessage pageContent = Inr rawText"
    and "parseFillFromUser (unicodeLower rt) userMessage = Returns fills"
  shows "\<exists>acts res. parseActions (JSON_parse rt) (unicodeLower rt) rawText = Some acts
     \<and> processMessage rt userMessage conversationHistory pageContent = Returns res
     \<and> set acts \<subseteq> set (actions res)
     \<and> (\<forall>f \<in> set fills.
           \<not> isFillOf (fillField f) (Fill_input (Selector sel) v)
           \<and> ((\<forall>w. Fill_input (Field (fillField f)) w \<notin> set acts)
                \<longrightarrow> Fill_input (Field (fillField f)) (VStr (fillValue f)) \<in> set (actions res)))"
proof -
  from processMessage_returns [OF assms] obtain acts where
    a: "parseActions (JSON_parse rt) (unicodeLower rt) rawText = Some acts"
    and p: "processMessage rt userMessage conversationHistory pageContent
        = Returns \<lparr>rtext = displayText rawText fills, actions = mergeLoop acts fills\<rparr>"
    by blast
  have m: "mergeLoop acts fills =
     acts @ map fillAction (filter (\<lambda>f. \<not> list_ex (isFillOf (fillField f)) acts) fills)"
    by (rule mergeLoop_eq [OF parseFillFromUser_distinct [OF assms(2)]])
  have "\<forall>f \<in> set fills. (\<forall>w. Fill_input (Field (fillField f)) w \<notin> set acts)
           \<longrightarrow> Fill_input (Field (fillField f)) (VStr (fillValue f)) \<in> set (mergeLoop acts fills)"
  proof (intro ballI impI)
    fix f assume f: "f \<in> set fills" and "\<forall>w. Fill_input (Field (fillField f)) w \<notin> set acts"
    then have "\<not> list_ex (isFillOf (fillField f)) acts" by (simp add: list_ex_isFillOf)
    with f have "fillAction f \<in> set (mergeLoop acts fills)" by (simp add: m)
    then show "Fill_input (Field (fillField f)) (VStr (fillValue f)) \<in> set (mergeLoop acts fills)"
      by (simp add: fillAction_def)
  qed
  with a p m show ?thesis by simp
qed

lemma ex2: "processMessage
     (exampleRuntime (js ''Filling [ACTION:fill_input:'' @ exampleSelectorPayload @ js '']''))
     (VStr (js ''fill name as Bob'')) [] VNull
   = Returns \<lparr>rtext = js ''Done. Filled: name.'',
        actions = [Fill_input (Selector (js ''#name'')) (VStr (js ''Al'')),
                   Fill_input (Field (js ''name'')) (VStr (js ''Bob''))]\<rparr>"
  by (simp add: process_eval normalizeHistory_def
      cong: option.case_cong_weak list.case_cong_weak sum.case_cong_weak outcome.case_cong_weak)

lemma ex2_fills:
  "parseFillFromUser (unicodeLower (exampleRuntime reply)) (VStr (js ''fill name as Bob''))
   = Returns [\<lparr>fillField = js ''name'', fillValue = js ''Bob''\<rparr>]"
  by (simp add: extractor_eval exampleRuntime_def
      cong: option.case_cong_weak list.case_cong_weak sum.case_cong_weak)

lemma ex2_acts:
  "parseActions exampleParse (\<lambda>s. s)
       (js ''Filling [ACTION:fill_input:'' @ exampleSelectorPayload @ js '']'')
     = Some [Fill_input (Selector (js ''#name'')) (VStr (js ''Al''))]"
  by (simp add: process_eval
      cong: option.case_cong_weak list.case_cong_weak sum.case_cong_weak outcome.case_cong_weak)

theorem C9_selector_does_not_block_witness:
  "parseActions exampleParse (\<lambda>s. s)
       (js ''Filling [ACTION:fill_input:'' @ exampleSelectorPayload @ js '']'')
     = Some [Fill_input (Selector (js ''#name'')) (VStr (js ''Al''))]
   \<and> (\<exists>res. processMessage
     (exampleRuntime (js ''Filling [ACTION:fill_input:'' @ exampleSelectorPayload @ js '']''))
     (VStr (js ''fill name as Bob'')) [] VNull = Returns res
     \<and> Fill_input (Selector (js ''#name'')) (VStr (js ''Al'')) \<in> set (actions res)
     \<and> Fill_input (Field (js ''name'')) (VStr (js ''Bob'')) \<in> set (actions res))"
proof -
  let ?raw = "js ''Filling [ACTION:fill_input:'' @ exampleSelectorPayload @ js '']''"
  from C9_selector_does_not_block [OF ex_send ex2_fills, of ?raw] ex2_acts
  show ?thesis by (auto simp: exampleRuntime_def)
qed

section \<open>Errors\<close>

lemma consumes_serviceRes:
  "consumes serviceSectionRe" "consumes serviceHighlightRe" "consumes serviceClickRe"
  "consumes serviceFillRe"
  by (simp_all add: serviceSectionRe_def serviceHighlightRe_def serviceClickRe_def
      serviceFillRe_def js_def)

lemma parseFillFromUser_not_Diverges: "parseFillFromUser u text \<noteq> Diverges"
proof (cases "ToString (if truthy text then text else VStr [])")
  case (Inl e)
  then show ?thesis by (simp add: parseFillFromUser_def)
next
  case (Inr s)
  from parseFillFromUser_eq [OF this, of u] show ?thesis by auto
qed

lemma tryBlock_not_Diverges: "tryBlock rt m h p \<noteq> Diverges"
proof (cases "sendPrompt rt (normalizeHistory h) m p")
  case (Inl e)
  then show ?thesis by (simp add: tryBlock_def)
next
  case (Inr raw)
  obtain acts where "parseActions (JSON_parse rt) (unicodeLower rt) raw = Some acts"
    using parseActions_returns by blast
  with Inr parseFillFromUser_not_Diverges [of "unicodeLower rt" m] show ?thesis
    by (cases "parseFillFromUser (unicodeLower rt) m") (simp_all add: tryBlock_def Let_def)
qed

lemma processMessage_total: "\<exists>res. processMessage rt m h p = Returns res"
  using tryBlock_not_Diverges [of rt m h p]
  by (cases "tryBlock rt m h p") (simp_all add: processMessage_def)

lemma serviceTryBlock_not_Diverges: "serviceTryBlock send m h p \<noteq> Diverges"
proof (cases "send (normalizeHistory h) m p")
  case (Inl e)
  then show ?thesis by (simp add: serviceTryBlock_def)
next
  case (Inr raw)
  let ?t = "replaceAll actionTagRe [] raw"
  obtain s1 where 1: "execLoop serviceSectionRe serviceSectionBody ?t 0 (Inr []) = Some s1"
    using execLoop_returns [OF consumes_serviceRes(1), of serviceSectionBody ?t 0 "Inr []"] by auto
  obtain s2 where 2: "execLoop serviceHighlightRe (serviceTextBody Service_highlight) ?t 0 s1 = Some s2"
    using execLoop_returns [OF consumes_serviceRes(2), of "serviceTextBody Service_highlight" ?t 0 s1]
    by auto
  obtain s3 where 3: "execLoop serviceClickRe (serviceTextBody Service_click) ?t 0 s2 = Some s3"
    using execLoop_returns [OF consumes_serviceRes(3), of "serviceTextBody Service_click" ?t 0 s2]
    by auto
  obtain s4 where 4: "execLoop serviceFillRe serviceFillBody ?t 0 s3 = Some s4"
    using execLoop_returns [OF consumes_serviceRes(4), of serviceFillBody ?t 0 s3] by auto
  from Inr 1 2 3 4 show ?thesis
    by (cases s4) (simp_all add: serviceTryBlock_def Let_def)
qed

lemma serviceProcessMessage_total: "\<exists>res. serviceProcessMessage send m h p = Returns res"
  using serviceTryBlock_not_Diverges [of send m h p]
  by (cases "serviceTryBlock send m h p") (simp_all add: serviceProcessMessage_def)

text \<open>
  Claim C7, as amended. \<^verbatim>\<open>processMessage\<close> always returns a result, in both modules: an
  error thrown by the model call, or by any other step of the \<^verbatim>\<open>try\<close> block, is caught. The
  result then has no actions. In the module with the deterministic extractor its text is
  \<^verbatim>\<open>Error: \<close> followed by the message of the error, or by \<^verbatim>\<open>Unknown error\<close> when the message is
  missing or empty. In \<^verbatim>\<open>services/geminiService.js\<close> its text begins with
  \<^verbatim>\<open>I apologize, but I encountered an error. \<close> and goes on with a sentence chosen from the
  message.
\<close>

theorem C7_errors_become_results:
  "(\<exists>res. processMessage rt m h p = Returns res)
   \<and> (sendPrompt rt (normalizeHistory h) m p = Inl e \<longrightarrow> tryBlock rt m h p = Throws e)
   \<and> (tryBlock rt m h p = Throws e \<longrightarrow>
        processMessage rt m h p =
          Returns \<lparr>rtext = js ''Error: '' @
                      (case message e of None \<Rightarrow> js ''Unknown error''
                       | Some x \<Rightarrow> if x \<noteq> [] then x else js ''Unknown error''),
                    actions = []\<rparr>)
   \<and> (\<exists>res. serviceProcessMessage send m h p = Returns res)
   \<and> (send (normalizeHistory h) m p = Inl e \<longrightarrow> serviceTryBlock send m h p = Throws e)
   \<and> (serviceTryBlock send m h p = Throws e \<longrightarrow>
        serviceProcessMessage send m h p = Returns (serviceCatchBlock e)
        \<and> sactions (serviceCatchBlock e) = []
        \<and> prefix (js ''I apologize, but I encountered an error. '') (stext (serviceCatchBlock e)))"
  using processMessage_total [of rt m h p] serviceProcessMessage_total [of send m h p]
  by (simp add: processMessage_def catchBlock_def tryBlock_def serviceProcessMessage_def
      serviceTryBlock_def serviceCatchBlock_def)

theorem C7_errors_become_results_witness:
  "processMessage \<lparr>JSON_parse = (\<lambda>s. None), unicodeLower = (\<lambda>s. s),
       sendPrompt = (\<lambda>history userMessage pageContent. Inl (Thrown (Some (js ''fetch failed''))))\<rparr>
     (VStr (js ''fill name as Bob'')) [] VNull
   = Returns \<lparr>rtext = js ''Error: fetch failed'', actions = []\<rparr>
   \<and> serviceProcessMessage
       (\<lambda>history userMessage pageContent. Inl (Thrown (Some (js ''fetch failed''))))
       (VStr (js ''fill name as Bob'')) [] VNull
   = Returns \<lparr>stext = js ''I apologize, but I encountered an error. Network error. Please check your internet connection.'',
        sactions = []\<rparr>"
proof -
  let ?e = "Thrown (Some (js ''fetch failed''))"
  let ?send = "\<lambda>history userMessage pageContent. Inl ?e :: thrown + jsstring"
  let ?rt = "\<lparr>JSON_parse = (\<lambda>s. None), unicodeLower = (\<lambda>s. s), sendPrompt = ?send\<rparr>"
  have c: "serviceCatchBlock ?e = \<lparr>stext = js ''I apologize, but I encountered an error. Network error. Please check your internet connection.'',
        sactions = []\<rparr>"
    by (simp add: serviceCatchBlock_def messageIncludes_def js_def)
  have n: "js ''fetch failed'' \<noteq> []" by (simp add: js_def)
  from C7_errors_become_results [of ?rt "VStr (js ''fill name as Bob'')" "[]" VNull ?e ?send]
  have "processMessage ?rt (VStr (js ''fill name as Bob'')) [] VNull
      = Returns \<lparr>rtext = js ''Error: '' @
                      (case message ?e of None \<Rightarrow> js ''Unknown error''
                       | Some x \<Rightarrow> if x \<noteq> [] then x else js ''Unknown error''),
                    actions = []\<rparr>"
    and "serviceProcessMessage ?send (VStr (js ''fill name as Bob'')) [] VNull
      = Returns (serviceCatchBlock ?e)"
    by auto
  with c n show ?thesis by (simp add: js_def)
qed

text \<open>
  The claim as it was stated asks for \<^verbatim>\<open>Error:\<close> in the text. The text of
  \<^verbatim>\<open>services/geminiService.js\<close> for an error about the quota does not have it.
\<close>

theorem C7_service_text_counterexample:
  "serviceProcessMessage
       (\<lambda>history userMessage pageContent. Inl (Thrown (Some (js ''quota exceeded''))))
       (VStr (js ''hello'')) [] VNull
   = Returns \<lparr>stext = js ''I apologize, but I encountered an error. API quota exceeded. Please try again later.'',
        sactions = []\<rparr>
   \<and> \<not> includesStr (js ''I apologize, but I encountered an error. API quota exceeded. Please try again later.'')
         (js ''Error:'')"
  by (simp add: serviceProcessMessage_def serviceTryBlock_def serviceCatchBlock_def
      messageIncludes_def js_def)

section \<open>Properties of the Action Tag Parser\<close>

lemma js_bracket: "js '']'' = [93]" "js ''['' = [91]"
  by (simp_all add: js_def)

lemma groupFree_lit [simp]: "groupFree (lit s)"
  by (induction s) auto

lemma consumes_lit [simp]: "s \<noteq> [] \<Longrightarrow> consumes (lit s)"
  by (cases s) auto

lemma matchRx_Group_free:
  assumes "matchRx (Group n a) prev rest cap k = Some m" and "groupFree a"
  shows "\<exists>w rest'. rest = w @ rest' \<and> accepts a w \<and> k (rev w @ prev) rest' (cap(n \<mapsto> w)) = Some m"
proof -
  from assms(1) have "matchRx a prev rest cap
       (\<lambda>prev' rest' cap'. k prev' rest' (cap'(n \<mapsto> rev (take (length prev' - length prev) prev')))) = Some m"
    by simp
  from matchRx_accepts [OF this] assms(2) obtain w rest' where
    "rest = w @ rest'" "accepts a w"
    "k (rev w @ prev) rest' (cap(n \<mapsto> rev (take (length (rev w @ prev) - length prev) (rev w @ prev)))) = Some m"
    by blast
  then show ?thesis by auto
qed

lemma matchRx_run_bracket:
  assumes "\<not> P 93" "body \<noteq> []" "list_all P body"
  shows "matchRx (oneOrMore P) prev (body @ 93 # rest') cap
           (\<lambda>p r c. matchRx (lit [93]) p r (F p c) k)
         = k (93 # rev body @ prev) rest' (F (rev body @ prev) cap)"
proof -
  from assms(2) obtain x xs where b: "body = x # xs" by (cases body) auto
  with assms(3) have px: "P x" and pxs: "list_all P xs" by auto
  let ?k = "\<lambda>p r. matchRx (lit [93]) p r (F p cap) k"
  have rej: "\<And>p' y r'. P y \<Longrightarrow> ?k p' (y # r') = None"
    using assms(1) by auto
  have tw: "takeWhile P (xs @ 93 # rest') = xs" "dropWhile P (xs @ 93 # rest') = 93 # rest'"
    using pxs assms(1) by (induction xs) auto
  have "matchRx (oneOrMore P) prev (body @ 93 # rest') cap
           (\<lambda>p r c. matchRx (lit [93]) p r (F p c) k)
      = starGreedy P (x # prev) (xs @ 93 # rest') ?k"
    using px by (simp add: oneOrMore_def b)
  also have "\<dots> = ?k (rev xs @ x # prev) (93 # rest')"
    using starGreedy_max [of P ?k "x # prev" "xs @ 93 # rest'", OF rej] by (simp add: tw)
  also have "\<dots> = k (93 # rev body @ prev) rest' (F (rev body @ prev) cap)"
    by (simp add: b)
  finally show ?thesis .
qed

lemma matchAt_tagRe_Some:
  assumes "\<not> P 93" "body \<noteq> []" "list_all P body"
  shows "matchAt (tagRe pre P) prev (tagOf pre body @ rest')
     = Some (rev (tagOf pre body) @ prev, rest', [1 \<mapsto> body])"
proof -
  let ?K = "\<lambda>p r c. Some (p, r, c)"
  have "matchAt (tagRe pre P) prev (tagOf pre body @ rest')
      = matchRx (oneOrMore P) (rev pre @ prev) (body @ 93 # rest') Map.empty
          (\<lambda>p r c. matchRx (lit [93]) p r
              (c(1 \<mapsto> rev (take (length p - length (rev pre @ prev)) p))) ?K)"
    by (simp add: matchAt_def tagRe_def tagOf_def matchRx_lit js_bracket del: matchRx.simps(1))
  also have "\<dots> = Some (93 # rev body @ rev pre @ prev, rest',
       (Map.empty(1 \<mapsto> rev (take (length (rev body @ rev pre @ prev) - length (rev pre @ prev))
           (rev body @ rev pre @ prev)))))"
    using matchRx_run_bracket [OF assms, of "rev pre @ prev" rest' Map.empty
        "\<lambda>p c. c(1 \<mapsto> rev (take (length p - length (rev pre @ prev)) p))" ?K]
    by simp
  finally show ?thesis by (simp add: tagOf_def js_bracket)
qed

lemma accepts_oneOrMore: "accepts (oneOrMore P) w \<longleftrightarrow> w \<noteq> [] \<and> list_all P w"
proof (cases w)
  case Nil
  then show ?thesis by (simp add: oneOrMore_def)
next
  case (Cons x xs)
  have "accepts (oneOrMore P) (x # xs) \<longleftrightarrow> P x \<and> list_all P xs"
  proof
    assume "accepts (oneOrMore P) (x # xs)"
    then show "P x \<and> list_all P xs" by (auto simp: oneOrMore_def)
  next
    assume "P x \<and> list_all P xs"
    then have "x # xs = [x] @ xs \<and> accepts (Chr P) [x] \<and> accepts (Star P) xs" by simp
    then show "accepts (oneOrMore P) (x # xs)"
      unfolding oneOrMore_def accepts.simps(3) by blast
  qed
  with Cons show ?thesis by simp
qed

lemma groupFree_oneOrMore [simp]: "groupFree (oneOrMore P)"
  by (simp add: oneOrMore_def)

lemma matchAt_tagRe_sound:
  assumes "matchAt (tagRe pre P) prev rest = Some (prev', rest', cap)"
  shows "\<exists>body. body \<noteq> [] \<and> list_all P body \<and> rest = tagOf pre body @ rest'
      \<and> prev' = rev (tagOf pre body) @ prev \<and> cap = [1 \<mapsto> body]"
proof -
  let ?K = "\<lambda>p r c. Some (p, r, c)"
  have u: "tagRe pre P = Seq (lit pre) (Seq (Group 1 (oneOrMore P)) (lit [93]))"
    by (simp add: tagRe_def js_bracket)
  from assms have "matchRx (Seq (lit pre) (Seq (Group 1 (oneOrMore P)) (lit [93])))
      prev rest Map.empty ?K = Some (prev', rest', cap)"
    unfolding matchAt_def u .
  from matchRx_Seq_accepts [OF this] obtain w1 r1 c1 where
    1: "rest = w1 @ r1" "accepts (lit pre) w1" "groupFree (lit pre) \<longrightarrow> c1 = Map.empty"
    "matchRx (Seq (Group 1 (oneOrMore P)) (lit [93])) (rev w1 @ prev) r1 c1 ?K
       = Some (prev', rest', cap)"
    by blast
  from 1(4) have "matchRx (Group 1 (oneOrMore P)) (rev w1 @ prev) r1 c1
      (\<lambda>p r c. matchRx (lit [93]) p r c ?K) = Some (prev', rest', cap)"
    by (simp only: matchRx.simps(3))
  from matchRx_Group_free [OF this groupFree_oneOrMore] obtain w2 r2 where
    2: "r1 = w2 @ r2" "accepts (oneOrMore P) w2"
    "matchRx (lit [93]) (rev w2 @ rev w1 @ prev) r2 (c1(1 \<mapsto> w2)) ?K = Some (prev', rest', cap)"
    by (metis append_assoc)
  from 2(3) have 3: "r2 = 93 # rest'" "prev' = 93 # rev w2 @ rev w1 @ prev" "cap = c1(1 \<mapsto> w2)"
    by (auto split: list.splits if_splits)
  from 1 2 3 show ?thesis
    by (auto simp: accepts_lit accepts_oneOrMore tagOf_def js_bracket)
qed

lemma matchesAt_fun: "matchesAt re t j m \<Longrightarrow> matchesAt re t j m' \<Longrightarrow> m = m'"
  by (auto simp: matchesAt_def)

lemma search_here:
  "matchAt re prev rest = Some y \<Longrightarrow> search re prev rest = Some (prev, y)"
  by (cases rest; cases y) simp_all

lemma search_next:
  "matchAt re prev (a # rest) = None \<Longrightarrow> search re prev (a # rest) = search re (a # prev) rest"
  by simp

lemma search_complete:
  "matchAt re (rev v @ prev) rest = Some x \<Longrightarrow>
   \<exists>v1 v2 y. v = v1 @ v2 \<and> search re prev (v @ rest) = Some (rev v1 @ prev, y)
      \<and> matchAt re (rev v1 @ prev) (v2 @ rest) = Some y"
proof (induction v arbitrary: prev)
  case Nil
  then have m: "matchAt re prev rest = Some x" by simp
  have "[] = [] @ ([]::jsstring) \<and> search re prev ([] @ rest) = Some (rev [] @ prev, x)
      \<and> matchAt re (rev [] @ prev) ([] @ rest) = Some x"
    using m search_here [OF m] by simp
  then show ?case by blast
next
  case (Cons a v)
  show ?case
  proof (cases "matchAt re prev (a # v @ rest)")
    case (Some y)
    have "a # v = [] @ (a # v) \<and> search re prev ((a # v) @ rest) = Some (rev [] @ prev, y)
      \<and> matchAt re (rev [] @ prev) ((a # v) @ rest) = Some y"
      using Some search_here [OF Some] by simp
    then show ?thesis by blast
  next
    case None
    from Cons.prems have "matchAt re (rev v @ a # prev) rest = Some x" by simp
    from Cons.IH [OF this] obtain v1 v2 y where
      1: "v = v1 @ v2" "search re (a # prev) (v @ rest) = Some (rev v1 @ a # prev, y)"
      "matchAt re (rev v1 @ a # prev) (v2 @ rest) = Some y" by blast
    have "a # v = (a # v1) @ v2
      \<and> search re prev ((a # v) @ rest) = Some (rev (a # v1) @ prev, y)
      \<and> matchAt re (rev (a # v1) @ prev) (v2 @ rest) = Some y"
      using 1 search_next [OF None] by simp
    then show ?thesis by blast
  qed
qed


lemma exec_matchesAt:
  assumes "exec re t i = Some m"
  shows "\<exists>j. i \<le> j \<and> matchesAt re t j m"
proof -
  from assms have i: "i \<le> length t" by (auto simp: exec_def split: if_splits)
  from assms i obtain start prev' rest' cap where
    s: "search re (rev (take i t)) (drop i t) = Some (start, prev', rest', cap)"
    and m: "m = \<lparr>index = length start, groups = cap, lastIndex = length prev'\<rparr>"
    by (auto simp: exec_def split: option.splits)
  from search_sound [OF s] obtain v w where
    vw: "drop i t = v @ w @ rest'" "start = rev v @ rev (take i t)"
      "matchAt re start (w @ rest') = Some (prev', rest', cap)" by blast
  let ?j = "i + length v"
  have lt: "length (take i t) = i" using i by simp
  have tj: "take ?j t = take i t @ v"
    by (simp add: take_add vw(1))
  have dj: "drop ?j t = w @ rest'"
    using drop_drop [of "length v" i t] by (simp add: vw(1) add.commute)
  have "length (drop i t) = length v + length w + length rest'" using vw(1) by simp
  then have "?j \<le> length t" using i by simp
  moreover have "length start = ?j" using vw(2) lt by simp
  ultimately have "matchesAt re t ?j m"
    using vw(2,3) m by (simp add: matchesAt_def tj dj)
  then show ?thesis by (intro exI [of _ ?j]) simp
qed

lemma exec_complete:
  assumes "matchesAt re t j m" "i \<le> j"
  shows "\<exists>j1 m1. i \<le> j1 \<and> j1 \<le> j \<and> exec re t i = Some m1 \<and> matchesAt re t j1 m1"
proof -
  from assms(1) obtain x where j: "j \<le> length t"
    and x: "matchAt re (rev (take j t)) (drop j t) = Some x"
    by (auto simp: matchesAt_def)
  let ?v = "take (j - i) (drop i t)"
  have tj: "take j t = take i t @ ?v"
    using take_add [of i "j - i" t] assms(2) by simp
  have dv: "drop i t = ?v @ drop j t"
    using append_take_drop_id [of "j - i" "drop i t"] assms(2) by simp
  from x have "matchAt re (rev ?v @ rev (take i t)) (drop j t) = Some x" by (simp add: tj)
  from search_complete [OF this] obtain v1 v2 y where
    v: "?v = v1 @ v2" and s: "search re (rev (take i t)) (?v @ drop j t) = Some (rev v1 @ rev (take i t), y)"
    and y: "matchAt re (rev v1 @ rev (take i t)) (v2 @ drop j t) = Some y" by blast
  obtain p' r' c where yy: "y = (p', r', c)" by (cases y) auto
  let ?j1 = "i + length v1"
  let ?m1 = "\<lparr>index = ?j1, groups = c, lastIndex = length p'\<rparr>"
  have i: "i \<le> length t" using assms(2) j by simp
  have lv: "length ?v = j - i" using j by simp
  have "length ?v = length v1 + length v2" using v by (metis length_append)
  then have l1: "length v1 \<le> j - i" using lv by simp
  have e: "exec re t i = Some ?m1"
    using s i by (simp add: exec_def dv [symmetric] yy)
  from exec_matchesAt [OF e] obtain j' where j': "matchesAt re t j' ?m1" by blast
  then have "j' = ?j1" by (auto simp: matchesAt_def)
  with j' l1 assms(2) e show ?thesis by (intro exI [of _ ?j1] exI [of _ ?m1]) auto
qed

lemma allMatches_sound:
  "allMatches re t i = Some ms \<Longrightarrow> m \<in> set ms \<Longrightarrow> \<exists>j. i \<le> j \<and> matchesAt re t j m"
proof (induction re t i arbitrary: ms rule: allMatches.induct)
  case (1 re t i)
  show ?case
  proof (cases "exec re t i")
    case None
    with "1.prems" show ?thesis by (simp add: allMatches.simps [of re t i])
  next
    case (Some m0)
    with "1.prems"(1) obtain ms' where
      b: "i < lastIndex m0 \<and> lastIndex m0 \<le> length t"
      and r: "allMatches re t (lastIndex m0) = Some ms'" and ms: "ms = m0 # ms'"
      by (auto simp: allMatches.simps [of re t i] split: if_splits)
    show ?thesis
    proof (cases "m = m0")
      case True
      with exec_matchesAt [OF Some] show ?thesis by simp
    next
      case False
      with ms "1.prems"(2) have "m \<in> set ms'" by simp
      from "1.IH" [OF Some b r this] b show ?thesis by (meson le_trans less_imp_le)
    qed
  qed
qed

lemma allMatches_complete:
  "(\<forall>j1 j2 m1 m2. matchesAt re t j1 m1 \<and> matchesAt re t j2 m2 \<and> j1 < j2
      \<longrightarrow> lastIndex m1 \<le> j2) \<Longrightarrow> consumes re \<Longrightarrow>
   matchesAt re t j m \<Longrightarrow> i \<le> j \<Longrightarrow> \<exists>ms. allMatches re t i = Some ms \<and> m \<in> set ms"
proof (induction re t i rule: allMatches.induct)
  case (1 re t i)
  note sep = "1.prems"(1) and c = "1.prems"(2) and mj = "1.prems"(3) and ij = "1.prems"(4)
  from exec_complete [OF mj ij] obtain j1 m1 where
    j1: "i \<le> j1" "j1 \<le> j" and e: "exec re t i = Some m1" and m1: "matchesAt re t j1 m1" by blast
  from exec_bounds [OF e] c have b: "i < lastIndex m1 \<and> lastIndex m1 \<le> length t" by auto
  obtain ms' where ms': "allMatches re t (lastIndex m1) = Some ms'"
    using allMatches_returns [OF c, of t "lastIndex m1"] by auto
  have eq: "allMatches re t i = Some (m1 # ms')"
    using e b ms' by (simp add: allMatches.simps [of re t i])
  show ?case
  proof (cases "j1 = j")
    case True
    with m1 mj have "m1 = m" by (auto dest: matchesAt_fun)
    with eq show ?thesis by simp
  next
    case False
    with j1 have "j1 < j" by simp
    with sep m1 mj have "lastIndex m1 \<le> j" by blast
    from "1.IH" [OF e b sep c mj this] ms' have "m \<in> set ms'" by simp
    with eq show ?thesis by simp
  qed
qed

lemma consumes_tagRe: "pre \<noteq> [] \<Longrightarrow> consumes (tagRe pre P)"
  by (simp add: tagRe_def)

lemma matchesAt_tagRe_iff:
  assumes "\<not> P 93"
  shows "matchesAt (tagRe pre P) t j m \<longleftrightarrow>
     (\<exists>a body post. t = a @ tagOf pre body @ post \<and> length a = j \<and> body \<noteq> [] \<and> list_all P body
        \<and> m = \<lparr>index = j, groups = [1 \<mapsto> body], lastIndex = j + length (tagOf pre body)\<rparr>)"
proof
  assume "matchesAt (tagRe pre P) t j m"
  then obtain prev' rest' cap where j: "j \<le> length t"
    and ma: "matchAt (tagRe pre P) (rev (take j t)) (drop j t) = Some (prev', rest', cap)"
    and m: "m = \<lparr>index = j, groups = cap, lastIndex = length prev'\<rparr>"
    by (auto simp: matchesAt_def)
  from matchAt_tagRe_sound [OF ma] obtain body where
    b: "body \<noteq> []" "list_all P body" "drop j t = tagOf pre body @ rest'"
    "prev' = rev (tagOf pre body) @ rev (take j t)" "cap = [1 \<mapsto> body]" by blast
  have "t = take j t @ tagOf pre body @ rest'"
    using b(3) by (metis append_take_drop_id)
  moreover have "length (take j t) = j" using j by simp
  moreover have "length prev' = j + length (tagOf pre body)" using b(4) j by simp
  ultimately show "\<exists>a body post. t = a @ tagOf pre body @ post \<and> length a = j \<and> body \<noteq> []
        \<and> list_all P body
        \<and> m = \<lparr>index = j, groups = [1 \<mapsto> body], lastIndex = j + length (tagOf pre body)\<rparr>"
    using b(1,2,5) m by blast
next
  assume "\<exists>a body post. t = a @ tagOf pre body @ post \<and> length a = j \<and> body \<noteq> [] \<and> list_all P body
        \<and> m = \<lparr>index = j, groups = [1 \<mapsto> body], lastIndex = j + length (tagOf pre body)\<rparr>"
  then obtain a body post where
    t: "t = a @ tagOf pre body @ post" and a: "length a = j" and b: "body \<noteq> []" "list_all P body"
    and m: "m = \<lparr>index = j, groups = [1 \<mapsto> body], lastIndex = j + length (tagOf pre body)\<rparr>"
    by blast
  have tk: "take j t = a" "drop j t = tagOf pre body @ post" using t a by simp_all
  have "matchAt (tagRe pre P) (rev a) (tagOf pre body @ post)
      = Some (rev (tagOf pre body) @ rev a, post, [1 \<mapsto> body])"
    by (rule matchAt_tagRe_Some [OF assms b])
  moreover have "j \<le> length t" using t a by simp
  ultimately show "matchesAt (tagRe pre P) t j m"
    using m a by (simp add: matchesAt_def tk)
qed

lemma tagRe_separate:
  assumes "\<not> P 93" "\<not> P 91" "91 \<notin> set pre'"
    and 1: "matchesAt (tagRe (91 # pre') P) t j1 m1"
    and 2: "matchesAt (tagRe (91 # pre') P) t j2 m2"
    and lt: "j1 < j2"
  shows "lastIndex m1 \<le> j2"
proof (rule ccontr)
  assume "\<not> lastIndex m1 \<le> j2"
  from 1 obtain a1 b1 p1 where
    t1: "t = a1 @ tagOf (91 # pre') b1 @ p1" "length a1 = j1" "list_all P b1"
    and l1: "lastIndex m1 = j1 + length (tagOf (91 # pre') b1)"
    by (auto simp: matchesAt_tagRe_iff [where P = P, OF assms(1)])
  from 2 obtain a2 b2 p2 where
    t2: "t = a2 @ tagOf (91 # pre') b2 @ p2" "length a2 = j2"
    by (auto simp: matchesAt_tagRe_iff [where P = P, OF assms(1)])
  let ?w = "tagOf (91 # pre') b1"
  let ?k = "j2 - j1"
  from \<open>\<not> lastIndex m1 \<le> j2\<close> l1 lt have k: "0 < ?k" "?k < length ?w" by auto
  have "t ! j2 = 91" using t2 by (simp add: nth_append tagOf_def)
  moreover have "t ! j2 = ?w ! ?k"
    using t1 k lt by (simp add: nth_append)
  moreover have "?w ! ?k \<in> set (pre' @ b1 @ [93])"
  proof -
    from k obtain n where n: "?k = Suc n" by (cases ?k) auto
    with k have "n < length (pre' @ b1 @ [93])" by (simp add: tagOf_def js_bracket)
    then have "(pre' @ b1 @ [93]) ! n \<in> set (pre' @ b1 @ [93])" by (rule nth_mem)
    then show ?thesis by (simp add: n tagOf_def js_bracket)
  qed
  ultimately have "91 \<in> set (pre' @ b1 @ [93])" by simp
  with assms(2,3) t1(3) show False by (auto simp: list_all_iff)
qed

lemma allMatches_tagRe:
  assumes "\<not> P 93" "\<not> P 91" "91 \<notin> set pre'"
  shows "\<exists>ms. allMatches (tagRe (91 # pre') P) t 0 = Some ms
     \<and> (\<forall>body. (\<exists>m \<in> set ms. groups m 1 = Some body)
          \<longleftrightarrow> (\<exists>a post. t = a @ tagOf (91 # pre') body @ post \<and> body \<noteq> [] \<and> list_all P body))
     \<and> (\<forall>m \<in> set ms. groups m 1 \<noteq> None)"
proof -
  let ?re = "tagRe (91 # pre') P"
  have c: "consumes ?re" by (simp add: consumes_tagRe)
  obtain ms where ms: "allMatches ?re t 0 = Some ms"
    using allMatches_returns [OF c, of t 0] by auto
  have sep: "\<forall>j1 j2 m1 m2. matchesAt ?re t j1 m1 \<and> matchesAt ?re t j2 m2 \<and> j1 < j2
      \<longrightarrow> lastIndex m1 \<le> j2"
    using tagRe_separate [OF assms] by blast
  have "(\<exists>m \<in> set ms. groups m 1 = Some body)
      \<longleftrightarrow> (\<exists>a post. t = a @ tagOf (91 # pre') body @ post \<and> body \<noteq> [] \<and> list_all P body)" for body
  proof
    assume "\<exists>m \<in> set ms. groups m 1 = Some body"
    then obtain m where m: "m \<in> set ms" "groups m 1 = Some body" by blast
    from allMatches_sound [OF ms m(1)] obtain j where "matchesAt ?re t j m" by blast
    then obtain a b post where "t = a @ tagOf (91 # pre') b @ post" "b \<noteq> []" "list_all P b"
      "groups m = [1 \<mapsto> b]"
      unfolding matchesAt_tagRe_iff [where P = P, OF assms(1)] by auto
    with m(2) show "\<exists>a post. t = a @ tagOf (91 # pre') body @ post \<and> body \<noteq> [] \<and> list_all P body"
      by auto
  next
    assume "\<exists>a post. t = a @ tagOf (91 # pre') body @ post \<and> body \<noteq> [] \<and> list_all P body"
    then obtain a post where
      o: "t = a @ tagOf (91 # pre') body @ post" "body \<noteq> []" "list_all P body" by blast
    let ?m = "\<lparr>index = length a, groups = [1 \<mapsto> body],
               lastIndex = length a + length (tagOf (91 # pre') body)\<rparr>"
    have "matchesAt ?re t (length a) ?m"
      unfolding matchesAt_tagRe_iff [where P = P, OF assms(1)] using o by blast
    from allMatches_complete [OF sep c this, of 0] ms have "?m \<in> set ms" by simp
    then show "\<exists>m \<in> set ms. groups m 1 = Some body" by (intro bexI [of _ ?m]) simp_all
  qed
  moreover have "\<forall>m \<in> set ms. groups m 1 \<noteq> None"
  proof
    fix m assume "m \<in> set ms"
    from allMatches_sound [OF ms this] obtain j where "matchesAt ?re t j m" by blast
    then show "groups m 1 \<noteq> None" by (auto simp: matchesAt_tagRe_iff [where P = P, OF assms(1)])
  qed
  ultimately show ?thesis using ms by blast
qed

lemma sectionRe_tagRe: "sectionRe = tagRe (91 # js ''ACTION:scroll_to_section:'') isIdChar"
  by (simp add: sectionRe_def tagRe_def js_def)

lemma pageRe_tagRe: "pageRe = tagRe (91 # js ''ACTION:scroll_page:'') isIdChar"
  by (simp add: pageRe_def tagRe_def js_def)

lemma sectionTag_tagOf: "sectionTag s = tagOf (91 # js ''ACTION:scroll_to_section:'') s"
  by (simp add: sectionTag_def tagOf_def js_def)

lemma pageTag_tagOf: "pageTag s = tagOf (91 # js ''ACTION:scroll_page:'') s"
  by (simp add: pageTag_def tagOf_def js_def)

lemma isIdChar_brackets: "\<not> isIdChar 93" "\<not> isIdChar 91"
  by (simp_all add: isIdChar_def isWordChar_def)

lemma no_bracket_in_names:
  "91 \<notin> set (js ''ACTION:scroll_to_section:'')" "91 \<notin> set (js ''ACTION:scroll_page:'')"
  by (simp_all add: js_def)

lemma isIdChar_ascii: "isIdChar c \<Longrightarrow> c < 128"
  by (auto simp: isIdChar_def isWordChar_def)

lemma toLowerCase_id: "list_all isIdChar s \<Longrightarrow> toLowerCase u s = map asciiLower s"
  by (auto simp: toLowerCase_def list_all_iff dest: isIdChar_ascii)

lemma fold_sectionBody:
  "fold (sectionBody u) ms acts =
     acts @ map Scroll_to_section
       (filter (\<lambda>s. s \<in> set allowedSections) (map (\<lambda>m. toLowerCase u (groupOrEmpty m 1)) ms))"
  by (induction ms arbitrary: acts) (simp_all add: sectionBody_def Let_def)

lemma fold_pageBody:
  "fold (pageBody u) ms acts =
     acts @ map Scroll_page
       (filter (\<lambda>s. s \<in> set allowedDirections) (map (\<lambda>m. toLowerCase u (groupOrEmpty m 1)) ms))"
  by (induction ms arbitrary: acts) (simp_all add: pageBody_def Let_def)

lemma fillBody_append: "fillBody parse u m acts = acts @ fillBody parse u m []"
  by (simp add: fillBody_def fillTry_def Let_def split: option.splits sum.splits)

lemma fold_fillBody:
  "fold (fillBody parse u) ms acts = acts @ concat (map (\<lambda>m. fillBody parse u m []) ms)"
proof (induction ms arbitrary: acts)
  case Nil
  then show ?case by simp
next
  case (Cons m ms)
  have "fold (fillBody parse u) (m # ms) acts = fold (fillBody parse u) ms (fillBody parse u m acts)"
    by simp
  also have "\<dots> = fillBody parse u m acts @ concat (map (\<lambda>m. fillBody parse u m []) ms)"
    by (rule Cons.IH)
  also have "\<dots> = acts @ fillBody parse u m [] @ concat (map (\<lambda>m. fillBody parse u m []) ms)"
    using fillBody_append [of parse u m acts] by simp
  finally show ?case by simp
qed

lemma fillBody_fills: "a \<in> set (fillBody parse u m []) \<Longrightarrow> \<exists>tg v. a = Fill_input tg v"
  by (auto simp: fillBody_def fillTry_def Let_def split: option.splits sum.splits if_splits)

lemma parseActions_eq:
  "\<exists>ms1 ms2 ms3.
     allMatches sectionRe rawText 0 = Some ms1 \<and> allMatches pageRe rawText 0 = Some ms2
     \<and> allMatches fillRe rawText 0 = Some ms3
     \<and> parseActions parse u rawText =
         Some (map Scroll_to_section
                 (filter (\<lambda>s. s \<in> set allowedSections)
                    (map (\<lambda>m. toLowerCase u (groupOrEmpty m 1)) ms1))
               @ map Scroll_page
                 (filter (\<lambda>s. s \<in> set allowedDirections)
                    (map (\<lambda>m. toLowerCase u (groupOrEmpty m 1)) ms2))
               @ concat (map (\<lambda>m. fillBody parse u m []) ms3))"
proof -
  obtain ms1 where 1: "allMatches sectionRe rawText 0 = Some ms1"
    using allMatches_returns [OF consumes_tagRes(1), of rawText 0] by auto
  obtain ms2 where 2: "allMatches pageRe rawText 0 = Some ms2"
    using allMatches_returns [OF consumes_tagRes(2), of rawText 0] by auto
  obtain ms3 where 3: "allMatches fillRe rawText 0 = Some ms3"
    using allMatches_returns [OF consumes_tagRes(3), of rawText 0] by auto
  from 1 2 3 show ?thesis
    by (simp add: parseActions_def execLoop_fold fold_sectionBody fold_pageBody fold_fillBody)
qed

lemma scroll_to_section_emitted:
  assumes "parseActions parse u rawText = Some acts"
  shows "Scroll_to_section s \<in> set acts \<longleftrightarrow>
     s \<in> set allowedSections
     \<and> (\<exists>a sectionId post. rawText = a @ sectionTag sectionId @ post \<and> isId sectionId
           \<and> map asciiLower sectionId = s)"
proof -
  from parseActions_eq [of rawText parse u] assms obtain ms1 ms2 ms3 where
    1: "allMatches sectionRe rawText 0 = Some ms1"
    and acts: "acts = map Scroll_to_section
                 (filter (\<lambda>s. s \<in> set allowedSections)
                    (map (\<lambda>m. toLowerCase u (groupOrEmpty m 1)) ms1))
               @ map Scroll_page
                 (filter (\<lambda>s. s \<in> set allowedDirections)
                    (map (\<lambda>m. toLowerCase u (groupOrEmpty m 1)) ms2))
               @ concat (map (\<lambda>m. fillBody parse u m []) ms3)"
    by auto
  from allMatches_tagRe [OF isIdChar_brackets no_bracket_in_names(1), of rawText] 1
  have occ: "\<And>body. (\<exists>m \<in> set ms1. groups m 1 = Some body)
          \<longleftrightarrow> (\<exists>a post. rawText = a @ sectionTag body @ post \<and> body \<noteq> [] \<and> list_all isIdChar body)"
    and some: "\<forall>m \<in> set ms1. groups m 1 \<noteq> None"
    by (auto simp: sectionRe_tagRe sectionTag_tagOf)
  have "Scroll_to_section s \<in> set acts \<longleftrightarrow>
      s \<in> set allowedSections \<and> (\<exists>m \<in> set ms1. toLowerCase u (groupOrEmpty m 1) = s)"
    unfolding acts using fillBody_fills [of "Scroll_to_section s" parse u] by auto
  also have "(\<exists>m \<in> set ms1. toLowerCase u (groupOrEmpty m 1) = s)
      \<longleftrightarrow> (\<exists>body. (\<exists>m \<in> set ms1. groups m 1 = Some body) \<and> toLowerCase u body = s)"
    using some by (auto simp: groupOrEmpty_def; force)
  also have "\<dots> \<longleftrightarrow> (\<exists>a sectionId post. rawText = a @ sectionTag sectionId @ post
      \<and> isId sectionId \<and> map asciiLower sectionId = s)"
    unfolding occ isId_def using toLowerCase_id [of _ u] by (metis (no_types, lifting))
  finally show ?thesis .
qed

lemma scroll_page_emitted:
  assumes "parseActions parse u rawText = Some acts"
  shows "Scroll_page s \<in> set acts \<longleftrightarrow>
     s \<in> set allowedDirections
     \<and> (\<exists>a direction post. rawText = a @ pageTag direction @ post \<and> isId direction
           \<and> map asciiLower direction = s)"
proof -
  from parseActions_eq [of rawText parse u] assms obtain ms1 ms2 ms3 where
    2: "allMatches pageRe rawText 0 = Some ms2"
    and acts: "acts = map Scroll_to_section
                 (filter (\<lambda>s. s \<in> set allowedSections)
                    (map (\<lambda>m. toLowerCase u (groupOrEmpty m 1)) ms1))
               @ map Scroll_page
                 (filter (\<lambda>s. s \<in> set allowedDirections)
                    (map (\<lambda>m. toLowerCase u (groupOrEmpty m 1)) ms2))
               @ concat (map (\<lambda>m. fillBody parse u m []) ms3)"
    by auto
  from allMatches_tagRe [OF isIdChar_brackets no_bracket_in_names(2), of rawText] 2
  have occ: "\<And>body. (\<exists>m \<in> set ms2. groups m 1 = Some body)
          \<longleftrightarrow> (\<exists>a post. rawText = a @ pageTag body @ post \<and> body \<noteq> [] \<and> list_all isIdChar body)"
    and some: "\<forall>m \<in> set ms2. groups m 1 \<noteq> None"
    by (auto simp: pageRe_tagRe pageTag_tagOf)
  have "Scroll_page s \<in> set acts \<longleftrightarrow>
      s \<in> set allowedDirections \<and> (\<exists>m \<in> set ms2. toLowerCase u (groupOrEmpty m 1) = s)"
    unfolding acts using fillBody_fills [of "Scroll_page s" parse u] by auto
  also have "(\<exists>m \<in> set ms2. toLowerCase u (groupOrEmpty m 1) = s)
      \<longleftrightarrow> (\<exists>body. (\<exists>m \<in> set ms2. groups m 1 = Some body) \<and> toLowerCase u body = s)"
    using some by (auto simp: groupOrEmpty_def; force)
  also have "\<dots> \<longleftrightarrow> (\<exists>a direction post. rawText = a @ pageTag direction @ post
      \<and> isId direction \<and> map asciiLower direction = s)"
    unfolding occ isId_def using toLowerCase_id [of _ u] by (metis (no_types, lifting))
  finally show ?thesis .
qed

lemma first_occurrence:
  "xs @ c # ys = xs' @ c # ys' \<Longrightarrow> c \<notin> set xs \<Longrightarrow> c \<notin> set xs' \<Longrightarrow> xs = xs' \<and> ys = ys'"
proof (induction xs arbitrary: xs')
  case Nil
  then show ?case by (cases xs') auto
next
  case (Cons x xs)
  then show ?case by (cases xs') auto
qed

lemma actionTagRe_seq:
  "actionTagRe = Seq (lit (js ''[ACTION:'')) (Seq (oneOrMore (\<lambda>c. c \<noteq> 93)) (lit [93]))"
  by (simp add: actionTagRe_def code_def js_bracket)

lemma matchAt_actionTagRe_Some:
  assumes "body \<noteq> []" "93 \<notin> set body"
  shows "matchAt actionTagRe prev (tagOf (js ''[ACTION:'') body @ rest')
     = Some (rev (tagOf (js ''[ACTION:'') body) @ prev, rest', Map.empty)"
proof -
  let ?K = "\<lambda>p r c. Some (p, r, c)"
  let ?P = "\<lambda>c. c \<noteq> (93::nat)"
  have la: "list_all ?P body" using assms(2) by (auto simp: list_all_iff)
  have "matchAt actionTagRe prev (tagOf (js ''[ACTION:'') body @ rest')
      = matchRx (oneOrMore ?P) (rev (js ''[ACTION:'') @ prev) (body @ 93 # rest') Map.empty
          (\<lambda>p r c. matchRx (lit [93]) p r c ?K)"
    unfolding matchAt_def actionTagRe_seq
    by (simp add: tagOf_def matchRx_lit js_bracket del: matchRx.simps(1))
  also have "\<dots> = Some (93 # rev body @ rev (js ''[ACTION:'') @ prev, rest', Map.empty)"
    using matchRx_run_bracket [of ?P body "rev (js ''[ACTION:'') @ prev" rest' Map.empty
        "\<lambda>p c. c" ?K] assms(1) la by simp
  finally show ?thesis by (simp add: tagOf_def js_bracket)
qed

lemma matchAt_actionTagRe_sound:
  assumes "matchAt actionTagRe prev rest = Some (prev', rest', cap)"
  shows "\<exists>body. body \<noteq> [] \<and> 93 \<notin> set body \<and> rest = tagOf (js ''[ACTION:'') body @ rest'"
proof -
  from assms have "matchRx actionTagRe prev rest Map.empty (\<lambda>p r c. Some (p, r, c))
      = Some (prev', rest', cap)" by (simp add: matchAt_def)
  from matchRx_accepts [OF this] obtain w r1 where
    w: "rest = w @ r1" "accepts actionTagRe w" "r1 = rest'" by auto
  from w(2) obtain body where "w = js ''[ACTION:'' @ body @ [93]" "body \<noteq> []"
      "list_all (\<lambda>c. c \<noteq> 93) body"
    unfolding actionTagRe_seq by (auto simp: accepts_lit accepts_oneOrMore Cons_eq_append_conv)
  with w show ?thesis by (auto simp: tagOf_def js_bracket list_all_iff)
qed

lemma consumes_actionTagRe: "consumes actionTagRe"
  by (simp add: actionTagRe_def js_def)

lemma replaceAll_actionTagRe_prev:
  "replaceAll actionTagRe prev rest = replaceAll actionTagRe [] rest"
proof (induction "length rest" arbitrary: prev rest rule: less_induct)
  case less
  show ?case
  proof (cases rest)
    case Nil
    then show ?thesis by simp
  next
    case (Cons x xs)
    show ?thesis
    proof (cases "matchAt actionTagRe prev (x # xs)")
      case None
      have n: "matchAt actionTagRe [] (x # xs) = None"
      proof (cases "matchAt actionTagRe [] (x # xs)")
        case (Some y)
        obtain p' r' c where "y = (p', r', c)" by (cases y) auto
        with Some matchAt_actionTagRe_sound [of "[]" "x # xs" p' r' c] obtain body where
          "body \<noteq> []" "93 \<notin> set body" "x # xs = tagOf (js ''[ACTION:'') body @ r'" by auto
        with matchAt_actionTagRe_Some [of body prev r'] None show ?thesis by simp
      qed simp
      have "replaceAll actionTagRe (x # prev) xs = replaceAll actionTagRe [] xs"
        and "replaceAll actionTagRe [x] xs = replaceAll actionTagRe [] xs"
        using less [of xs] Cons by simp_all
      with None n Cons show ?thesis by simp
    next
      case (Some y)
      obtain p' r' c where y: "y = (p', r', c)" by (cases y) auto
      with Some matchAt_actionTagRe_sound [of prev "x # xs" p' r' c] obtain body where
        b: "body \<noteq> []" "93 \<notin> set body" "x # xs = tagOf (js ''[ACTION:'') body @ r'" by auto
      have 1: "matchAt actionTagRe prev (x # xs)
          = Some (rev (tagOf (js ''[ACTION:'') body) @ prev, r', Map.empty)"
        and 2: "matchAt actionTagRe [] (x # xs)
          = Some (rev (tagOf (js ''[ACTION:'') body) @ [], r', Map.empty)"
        unfolding b(3) by (rule matchAt_actionTagRe_Some [OF b(1,2)])+
      have l: "length r' < length (x # xs)" unfolding b(3) by (simp add: tagOf_def js_bracket)
      then have l': "length r' < length rest" using Cons by simp
      have "replaceAll actionTagRe (rev (tagOf (js ''[ACTION:'') body) @ prev) r'
          = replaceAll actionTagRe [] r'"
        and "replaceAll actionTagRe (rev (tagOf (js ''[ACTION:'') body) @ []) r'
          = replaceAll actionTagRe [] r'"
        using less [OF l'] by blast+
      with 1 2 l Cons show ?thesis by simp
    qed
  qed
qed

lemma replaceAll_removes_tag:
  assumes "body \<noteq> []" "93 \<notin> set body"
  shows "\<exists>out. subseq out a
     \<and> replaceAll actionTagRe prev (a @ tagOf (js ''[ACTION:'') body @ post)
        = out @ replaceAll actionTagRe [] post"
proof (induction "length a" arbitrary: a prev rule: less_induct)
  case less
  let ?T = "tagOf (js ''[ACTION:'') body"
  let ?R = actionTagRe
  have T_ne: "?T \<noteq> []" by (simp add: tagOf_def js_bracket)
  have T_split: "?T = (js ''[ACTION:'' @ body) @ 93 # []" by (simp add: tagOf_def js_bracket)
  have T_no: "93 \<notin> set (js ''[ACTION:'' @ body)" using assms(2) by (simp add: js_def)
  show ?case
  proof (cases a)
    case Nil
    obtain t ts where ts: "?T @ post = t # ts" using T_ne by (cases "?T @ post") auto
    have m: "matchAt ?R prev (t # ts) = Some (rev ?T @ prev, post, Map.empty)"
      unfolding ts [symmetric] by (rule matchAt_actionTagRe_Some [OF assms])
    have l: "length post < length (t # ts)" unfolding ts [symmetric] using T_ne by simp
    have "replaceAll ?R prev (?T @ post) = replaceAll ?R (rev ?T @ prev) post"
      unfolding ts using m l by simp
    also have "\<dots> = replaceAll ?R [] post" by (rule replaceAll_actionTagRe_prev)
    finally have "subseq [] a \<and> replaceAll ?R prev (a @ ?T @ post) = [] @ replaceAll ?R [] post"
      using Nil by simp
    then show ?thesis by blast
  next
    case (Cons x a')
    show ?thesis
    proof (cases "matchAt ?R prev (x # a' @ ?T @ post)")
      case None
      from less [of a' "x # prev"] Cons obtain out where
        o: "subseq out a'" "replaceAll ?R (x # prev) (a' @ ?T @ post) = out @ replaceAll ?R [] post"
        by auto
      have "replaceAll ?R prev (a @ ?T @ post) = x # replaceAll ?R (x # prev) (a' @ ?T @ post)"
        using None Cons by simp
      with o have "subseq (x # out) a
          \<and> replaceAll ?R prev (a @ ?T @ post) = (x # out) @ replaceAll ?R [] post"
        using Cons by simp
      then show ?thesis by blast
    next
      case (Some y)
      obtain p' r' c where y: "y = (p', r', c)" by (cases y) auto
      from Some y matchAt_actionTagRe_sound [of prev "x # a' @ ?T @ post" p' r' c] obtain b where
        b: "b \<noteq> []" "93 \<notin> set b" and e: "x # a' @ ?T @ post = tagOf (js ''[ACTION:'') b @ r'"
        by auto
      let ?M = "tagOf (js ''[ACTION:'') b"
      have M_split: "?M = (js ''[ACTION:'' @ b) @ 93 # []" by (simp add: tagOf_def js_bracket)
      have M_no: "93 \<notin> set (js ''[ACTION:'' @ b)" using b(2) by (simp add: js_def)
      have l: "length r' < length (x # a' @ ?T @ post)"
        unfolding e by (simp add: tagOf_def js_bracket)
      have step: "replaceAll ?R prev (a @ ?T @ post) = replaceAll ?R p' r'"
        using Some y l Cons by simp
      from e Cons have "?M @ r' = a @ (?T @ post)" by simp
      then obtain us where
        us: "(?M = a @ us \<and> us @ r' = ?T @ post) \<or> (?M @ us = a \<and> r' = us @ ?T @ post)"
        by (auto simp: append_eq_append_conv2)
      show ?thesis
      proof (cases "?M @ us = a \<and> r' = us @ ?T @ post")
        case True
        then have "length a = length ?M + length us" by (metis length_append)
        moreover have "0 < length ?M" by (simp add: tagOf_def js_bracket)
        ultimately have "length us < length a" by simp
        from less [OF this, of p'] obtain out where
          o: "subseq out us" "replaceAll ?R p' (us @ ?T @ post) = out @ replaceAll ?R [] post"
          by blast
        from o(1) have "subseq out (?M @ us)" by (rule list_emb_append2)
        with True have "subseq out a" by simp
        moreover from o(2) step True have "replaceAll ?R prev (a @ ?T @ post)
            = out @ replaceAll ?R [] post" by simp
        ultimately show ?thesis by blast
      next
        case False
        with us have A: "?M = a @ us" "us @ r' = ?T @ post" by auto
        from False A have "us \<noteq> []" by auto
        then obtain us' z where z: "us = us' @ [z]" by (metis rev_exhaust)
        have "(a @ us') @ [z] = (js ''[ACTION:'' @ b) @ [93]"
          using A(1) z M_split by simp
        then have zz: "a @ us' = js ''[ACTION:'' @ b \<and> z = 93"
          by (simp only: append1_eq_conv)
        then have "set us' \<subseteq> set (js ''[ACTION:'' @ b)" by (metis set_append Un_upper2)
        with M_no have n: "93 \<notin> set us'" by blast
        have "(us' @ [93]) @ r' = ?T @ post" using A(2) z zz by simp
        then have "us' @ 93 # r' = (js ''[ACTION:'' @ body) @ 93 # post"
          unfolding T_split by simp
        from first_occurrence [OF this n T_no] have "r' = post" by simp
        with step have "replaceAll ?R prev (a @ ?T @ post) = replaceAll ?R [] post"
          by (simp add: replaceAll_actionTagRe_prev [of p'])
        then have "subseq [] a \<and> replaceAll ?R prev (a @ ?T @ post) = [] @ replaceAll ?R [] post"
          by simp
        then show ?thesis by blast
      qed
    qed
  qed
qed

lemma sectionTag_actionTag:
  "sectionTag s = tagOf (js ''[ACTION:'') (js ''scroll_to_section:'' @ s)"
  by (simp add: sectionTag_def tagOf_def js_def)

lemma pageTag_actionTag:
  "pageTag s = tagOf (js ''[ACTION:'') (js ''scroll_page:'' @ s)"
  by (simp add: pageTag_def tagOf_def js_def)

lemma isId_no_bracket: "isId s \<Longrightarrow> 93 \<notin> set s"
  using isIdChar_brackets(1) by (auto simp: isId_def list_all_iff)

lemma scroll_tag_removed:
  assumes "isId tagId"
    and "rawText = a @ sectionTag tagId @ post \<or> rawText = a @ pageTag tagId @ post"
  shows "\<exists>out. subseq out a
     \<and> replaceAll actionTagRe [] rawText = out @ replaceAll actionTagRe [] post"
proof -
  have n: "93 \<notin> set (js ''scroll_to_section:'' @ tagId)" "93 \<notin> set (js ''scroll_page:'' @ tagId)"
    using isId_no_bracket [OF assms(1)] by (simp_all add: js_def)
  from assms(2) show ?thesis
  proof
    assume "rawText = a @ sectionTag tagId @ post"
    with replaceAll_removes_tag [OF _ n(1), of a "[]" post] show ?thesis
      by (simp add: sectionTag_actionTag js_def)
  next
    assume "rawText = a @ pageTag tagId @ post"
    with replaceAll_removes_tag [OF _ n(2), of a "[]" post] show ?thesis
      by (simp add: pageTag_actionTag js_def)
  qed
qed

lemma ex3_fills:
  "parseFillFromUser (unicodeLower (exampleRuntime reply)) (VStr (js ''hello'')) = Returns []"
  by (simp add: extractor_eval exampleRuntime_def
      cong: option.case_cong_weak list.case_cong_weak sum.case_cong_weak)

text \<open>
  The tags are taken out in one pass from left to right, and the result is not scanned
  again: the text around an occurrence can join into the text of a tag.
\<close>

lemma cleanup_can_join_text:
  "replaceAll actionTagRe [] (js ''[ACTION[ACTION:scroll_to_section:foo]:scroll_to_section:foo]'')
   = js ''[ACTION:scroll_to_section:foo]''"
  by (simp add: regex_eval actionTagRe_def
      cong: option.case_cong_weak list.case_cong_weak)

section \<open>Properties of the fill tags\<close>

lemma noCloser_iff: "noCloser mid \<longleftrightarrow> (\<forall>a1 a2. mid \<noteq> a1 @ [125, 93] @ a2)"
  by (simp add: noCloser_def sublist_def js_def)

lemma fillRe_seq:
  "fillRe = Seq (lit (js ''[ACTION:fill_input:''))
     (Seq (Group 1 (Seq (lit (js ''{'')) (Seq (LazyStar (\<lambda>c. \<not> isLineTerminator c)) (lit (js ''}'')))))
        (lit [93]))"
  by (simp add: fillRe_def js_bracket)

lemma matchAt_fillRe_sound:
  assumes "matchAt fillRe prev rest = Some (prev', rest', cap)"
  shows "\<exists>mid. rest = fillTag (js ''{'' @ mid @ js ''}'') @ rest'
      \<and> list_all (\<lambda>c. \<not> isLineTerminator c) mid
      \<and> prev' = rev (fillTag (js ''{'' @ mid @ js ''}'')) @ prev
      \<and> cap = [1 \<mapsto> js ''{'' @ mid @ js ''}'']"
proof -
  let ?K = "\<lambda>p r c. Some (p, r, c)"
  let ?G = "Seq (lit (js ''{'')) (Seq (LazyStar (\<lambda>c. \<not> isLineTerminator c)) (lit (js ''}'')))"
  have gG: "groupFree ?G" by simp
  from assms have "matchRx (Seq (lit (js ''[ACTION:fill_input:'')) (Seq (Group 1 ?G) (lit [93])))
      prev rest Map.empty ?K = Some (prev', rest', cap)"
    unfolding matchAt_def fillRe_seq .
  from matchRx_Seq_accepts [OF this] obtain w1 r1 c1 where
    1: "rest = w1 @ r1" "accepts (lit (js ''[ACTION:fill_input:'')) w1"
    "groupFree (lit (js ''[ACTION:fill_input:'')) \<longrightarrow> c1 = Map.empty"
    "matchRx (Seq (Group 1 ?G) (lit [93])) (rev w1 @ prev) r1 c1 ?K = Some (prev', rest', cap)"
    by blast
  from 1(4) have "matchRx (Group 1 ?G) (rev w1 @ prev) r1 c1
      (\<lambda>p r c. matchRx (lit [93]) p r c ?K) = Some (prev', rest', cap)"
    by (simp only: matchRx.simps(3))
  from matchRx_Group_free [OF this gG] obtain w2 r2 where
    2: "r1 = w2 @ r2" "accepts ?G w2"
    "matchRx (lit [93]) (rev w2 @ rev w1 @ prev) r2 (c1(1 \<mapsto> w2)) ?K = Some (prev', rest', cap)"
    by (metis append_assoc)
  from 2(3) have 3: "r2 = 93 # rest'" "prev' = 93 # rev w2 @ rev w1 @ prev" "cap = c1(1 \<mapsto> w2)"
    by (auto split: list.splits if_splits)
  from 2(2) obtain mid where mid: "w2 = js ''{'' @ mid @ js ''}''"
    "list_all (\<lambda>c. \<not> isLineTerminator c) mid"
    by (auto simp: accepts_lit)
  from 1 2 3 mid show ?thesis
    by (auto simp: accepts_lit fillTag_def js_bracket)
qed

lemma matchesAt_fillRe:
  assumes "matchesAt fillRe t j m"
  shows "\<exists>a mid post. t = a @ fillTag (js ''{'' @ mid @ js ''}'') @ post \<and> length a = j
      \<and> list_all (\<lambda>c. \<not> isLineTerminator c) mid
      \<and> m = \<lparr>index = j, groups = [1 \<mapsto> js ''{'' @ mid @ js ''}''],
              lastIndex = j + length (fillTag (js ''{'' @ mid @ js ''}''))\<rparr>"
proof -
  from assms obtain prev' rest' cap where j: "j \<le> length t"
    and ma: "matchAt fillRe (rev (take j t)) (drop j t) = Some (prev', rest', cap)"
    and m: "m = \<lparr>index = j, groups = cap, lastIndex = length prev'\<rparr>"
    by (auto simp: matchesAt_def)
  from matchAt_fillRe_sound [OF ma] obtain mid where
    b: "drop j t = fillTag (js ''{'' @ mid @ js ''}'') @ rest'"
    "list_all (\<lambda>c. \<not> isLineTerminator c) mid"
    "prev' = rev (fillTag (js ''{'' @ mid @ js ''}'')) @ rev (take j t)"
    "cap = [1 \<mapsto> js ''{'' @ mid @ js ''}'']" by blast
  have "t = take j t @ fillTag (js ''{'' @ mid @ js ''}'') @ rest'"
    using b(1) by (metis append_take_drop_id)
  moreover have "length (take j t) = j" using j by simp
  moreover have "length prev' = j + length (fillTag (js ''{'' @ mid @ js ''}''))" using b(3) j by simp
  ultimately show ?thesis using b(2,4) m by blast
qed

lemma fillBody_claimed:
  "groups m 1 = Some payload \<Longrightarrow> fillBody parse u m acts = acts @ claimedFill parse u payload"
  by (auto simp: fillBody_def fillTry_def claimedFill_def Let_def allowedFields_def js_def
      split: option.splits sum.splits)

lemma starLazy_first:
  assumes "list_all P a"
    and "\<forall>a1 a2. a = a1 @ a2 \<and> a2 \<noteq> [] \<longrightarrow> k (rev a1 @ prev) (a2 @ rest) = None"
    and "k (rev a @ prev) rest = Some m"
  shows "starLazy P prev (a @ rest) k = Some m"
  using assms
proof (induction a arbitrary: prev)
  case Nil
  then show ?case by (cases rest) simp_all
next
  case (Cons x a)
  from Cons.prems(2) have n: "k prev (x # a @ rest) = None"
    by (metis append_Cons append_Nil list.distinct(1) rev.simps(1))
  have "\<forall>a1 a2. a = a1 @ a2 \<and> a2 \<noteq> [] \<longrightarrow> k (rev a1 @ x # prev) (a2 @ rest) = None"
  proof (intro allI impI)
    fix a1 a2 assume "a = a1 @ a2 \<and> a2 \<noteq> []"
    then have "x # a = (x # a1) @ a2 \<and> a2 \<noteq> []" by simp
    with Cons.prems(2) have "k (rev (x # a1) @ prev) (a2 @ rest) = None" by blast
    then show "k (rev a1 @ x # prev) (a2 @ rest) = None" by simp
  qed
  moreover from Cons.prems(1) have "list_all P a" "P x" by simp_all
  moreover from Cons.prems(3) have "k (rev a @ x # prev) rest = Some m" by simp
  ultimately have "starLazy P (x # prev) (a @ rest) k = Some m" using Cons.IH by blast
  with n \<open>P x\<close> show ?case by simp
qed

lemma js_braces: "js ''{'' = [123]" "js ''}'' = [125]"
  by (simp_all add: js_def)

lemma matchAt_fillRe_Some:
  assumes "list_all (\<lambda>c. \<not> isLineTerminator c) mid" "noCloser mid"
  shows "matchAt fillRe prev (fillTag (js ''{'' @ mid @ js ''}'') @ rest')
     = Some (rev (fillTag (js ''{'' @ mid @ js ''}'')) @ prev, rest', [1 \<mapsto> js ''{'' @ mid @ js ''}''])"
proof -
  let ?K = "\<lambda>p r c. Some (p, r, c)"
  let ?pre = "js ''[ACTION:fill_input:''"
  let ?p0 = "rev ?pre @ prev"
  let ?cap = "\<lambda>p. Map.empty(1 \<mapsto> rev (take (length p - length ?p0) p))"
  let ?k = "\<lambda>p r. matchRx (lit [125]) p r Map.empty
               (\<lambda>p' r' c'. matchRx (lit [93]) p' r' (?cap p') ?K)"
  have e: "matchAt fillRe prev (fillTag (js ''{'' @ mid @ js ''}'') @ rest')
      = starLazy (\<lambda>c. \<not> isLineTerminator c) (123 # ?p0) (mid @ 125 # 93 # rest') ?k"
    unfolding matchAt_def fillRe_seq
    by (simp add: fillTag_def matchRx_lit js_bracket js_braces del: lit.simps cong: if_cong)
  have k_end: "?k (rev mid @ 123 # ?p0) (125 # 93 # rest')
      = Some (93 # 125 # rev mid @ 123 # ?p0, rest', ?cap (125 # rev mid @ 123 # ?p0))"
    by simp
  have k_none: "\<forall>a1 a2. mid = a1 @ a2 \<and> a2 \<noteq> []
      \<longrightarrow> ?k (rev a1 @ 123 # ?p0) (a2 @ 125 # 93 # rest') = None"
  proof (intro allI impI)
    fix a1 a2 assume a: "mid = a1 @ a2 \<and> a2 \<noteq> []"
    then obtain x xs where x: "a2 = x # xs" by (cases a2) auto
    show "?k (rev a1 @ 123 # ?p0) (a2 @ 125 # 93 # rest') = None"
    proof (cases "x = 125")
      case False
      with x show ?thesis by simp
    next
      case True
      have "hd (xs @ 125 # 93 # rest') \<noteq> 93"
      proof (cases xs)
        case Nil
        then show ?thesis by simp
      next
        case (Cons y ys)
        have "y \<noteq> 93"
        proof
          assume "y = 93"
          with a x True Cons have "mid = a1 @ [125, 93] @ ys" by simp
          with assms(2) show False by (auto simp: noCloser_iff)
        qed
        with Cons show ?thesis by simp
      qed
      then show ?thesis using x True by (cases "xs @ 125 # 93 # rest'") auto
    qed
  qed
  have s: "starLazy (\<lambda>c. \<not> isLineTerminator c) (123 # ?p0) (mid @ 125 # 93 # rest') ?k
      = Some (93 # 125 # rev mid @ 123 # ?p0, rest', ?cap (125 # rev mid @ 123 # ?p0))"
    by (rule starLazy_first [OF assms(1) k_none k_end])
  have c: "?cap (125 # rev mid @ 123 # ?p0) = [1 \<mapsto> 123 # mid @ [125]]"
    by simp
  show ?thesis
    unfolding e s c by (simp add: fillTag_def js_bracket js_braces)
qed

lemma search_first:
  assumes "matchAt re (rev v @ prev) rest = Some x"
    and "\<forall>v1 v2. v = v1 @ v2 \<and> v2 \<noteq> [] \<longrightarrow> matchAt re (rev v1 @ prev) (v2 @ rest) = None"
  shows "search re prev (v @ rest) = Some (rev v @ prev, x)"
proof -
  from search_complete [OF assms(1)] obtain v1 v2 y where
    v: "v = v1 @ v2" "search re prev (v @ rest) = Some (rev v1 @ prev, y)"
    "matchAt re (rev v1 @ prev) (v2 @ rest) = Some y" by blast
  with assms(2) have "v2 = []" by (metis option.distinct(1))
  with v assms(1) show ?thesis by simp
qed

lemma matchAt_fillRe_bracket:
  "hd rest \<noteq> 91 \<or> rest = [] \<Longrightarrow> matchAt fillRe prev rest = None"
proof (cases "matchAt fillRe prev rest")
  case None
  then show ?thesis by simp
next
  case (Some y)
  assume h: "hd rest \<noteq> 91 \<or> rest = []"
  obtain p' r' c where "y = (p', r', c)" by (cases y) auto
  with Some matchAt_fillRe_sound [of prev rest p' r' c] obtain mid where
    "rest = fillTag (js ''{'' @ mid @ js ''}'') @ r'" by auto
  then have "rest \<noteq> [] \<and> hd rest = 91" by (simp add: fillTag_def js_def)
  with h show ?thesis by blast
qed

lemma exec_fillRe_next:
  assumes t: "t = a0 @ a @ fillTag (js ''{'' @ mid @ js ''}'') @ post"
    and a: "91 \<notin> set a"
    and mid: "list_all (\<lambda>c. \<not> isLineTerminator c) mid" "noCloser mid"
  shows "exec fillRe t (length a0)
     = Some \<lparr>index = length a0 + length a, groups = [1 \<mapsto> js ''{'' @ mid @ js ''}''],
             lastIndex = length a0 + length a + length (fillTag (js ''{'' @ mid @ js ''}''))\<rparr>"
proof -
  let ?T = "fillTag (js ''{'' @ mid @ js ''}'')"
  have m: "matchAt fillRe (rev a @ rev a0) (?T @ post)
      = Some (rev ?T @ rev a @ rev a0, post, [1 \<mapsto> js ''{'' @ mid @ js ''}''])"
    by (rule matchAt_fillRe_Some [OF mid])
  have n: "\<forall>v1 v2. a = v1 @ v2 \<and> v2 \<noteq> []
      \<longrightarrow> matchAt fillRe (rev v1 @ rev a0) (v2 @ ?T @ post) = None"
  proof (intro allI impI)
    fix v1 v2 assume v: "a = v1 @ v2 \<and> v2 \<noteq> []"
    then have "hd (v2 @ ?T @ post) \<in> set a" by (cases v2) auto
    with a have "hd (v2 @ ?T @ post) \<noteq> 91" by auto
    then show "matchAt fillRe (rev v1 @ rev a0) (v2 @ ?T @ post) = None"
      by (intro matchAt_fillRe_bracket) simp
  qed
  from search_first [OF m n] show ?thesis
    by (simp add: exec_def t)
qed

lemma oneLine_noCloser: "oneLine mid \<Longrightarrow> noCloser mid"
  by (simp add: oneLine_def)

lemma opener_split: "js ''[ACTION:fill_input:{'' = 91 # js ''ACTION:fill_input:{''"
  "91 \<notin> set (js ''ACTION:fill_input:{'')"
  by (simp_all add: js_def)

lemma fillTag_opener:
  "fillTag (js ''{'' @ mid @ js ''}'') = js ''[ACTION:fill_input:{'' @ mid @ js ''}]''"
  by (simp add: fillTag_def js_def)

lemma matchAt_fillRe_opener:
  assumes "matchAt fillRe prev rest \<noteq> None"
  shows "\<exists>r. rest = js ''[ACTION:fill_input:{'' @ r"
proof -
  from assms obtain p' r' c where "matchAt fillRe prev rest = Some (p', r', c)" by auto
  from matchAt_fillRe_sound [OF this] obtain mid where
    "rest = fillTag (js ''{'' @ mid @ js ''}'') @ r'" by blast
  then have "rest = js ''[ACTION:fill_input:{'' @ (mid @ js ''}]'' @ r')"
    by (simp only: fillTag_opener append_assoc)
  then show ?thesis by blast
qed

lemma no_match_in_plainText:
  assumes "plainText a" "a = v1 @ v2" "v2 \<noteq> []" "hd tl' = 91 \<or> tl' = []"
  shows "matchAt fillRe prev (v2 @ tl') = None"
proof (rule ccontr)
  define opener where "opener = js ''[ACTION:fill_input:{''"
  define opener' where "opener' = js ''ACTION:fill_input:{''"
  have o: "opener = 91 # opener'" "91 \<notin> set opener'"
    unfolding opener_def opener'_def by (rule opener_split)+
  assume "matchAt fillRe prev (v2 @ tl') \<noteq> None"
  from matchAt_fillRe_opener [OF this] obtain r where r: "v2 @ tl' = opener @ r"
    unfolding opener_def by blast
  then obtain us where
    us: "(v2 = opener @ us \<and> us @ tl' = r) \<or> (v2 @ us = opener \<and> tl' = us @ r)"
    unfolding append_eq_append_conv2 by blast
  have ns: "\<not> sublist opener a" using assms(1) unfolding plainText_def opener_def .
  show False
  proof (cases "us = [] \<or> v2 = opener @ us")
    case True
    with us have "\<exists>s. v2 = opener @ s" by auto
    then obtain s where "v2 = opener @ s" by blast
    with assms(2) have "a = v1 @ opener @ s" by simp
    then have "sublist opener a" unfolding sublist_def by blast
    with ns show False by blast
  next
    case False
    with us have u: "us \<noteq> []" "v2 @ us = opener" "tl' = us @ r" by auto
    from assms(3) obtain x v2' where v2: "v2 = x # v2'" by (cases v2) auto
    with u(2) o(1) have "v2' @ us = opener'" by simp
    then have "set us \<subseteq> set opener'" by (metis set_append Un_upper2)
    moreover from u(1) have "hd us \<in> set us" by simp
    ultimately have "hd us \<noteq> 91" using o(2) by auto
    moreover from u(1,3) have "hd tl' = hd us" "tl' \<noteq> []" by simp_all
    ultimately show False using assms(4) by simp
  qed
qed

lemma exec_fillRe_tag:
  assumes t: "t = a0 @ a @ fillTag (js ''{'' @ mid @ js ''}'') @ post"
    and a: "plainText a"
    and mid: "oneLine mid"
  shows "exec fillRe t (length a0)
     = Some \<lparr>index = length a0 + length a, groups = [1 \<mapsto> js ''{'' @ mid @ js ''}''],
             lastIndex = length a0 + length a + length (fillTag (js ''{'' @ mid @ js ''}''))\<rparr>"
proof -
  let ?T = "fillTag (js ''{'' @ mid @ js ''}'')"
  from mid have l: "list_all (\<lambda>c. \<not> isLineTerminator c) mid" by (simp add: oneLine_def)
  have m: "matchAt fillRe (rev a @ rev a0) (?T @ post)
      = Some (rev ?T @ rev a @ rev a0, post, [1 \<mapsto> js ''{'' @ mid @ js ''}''])"
    by (rule matchAt_fillRe_Some [OF l oneLine_noCloser [OF mid]])
  have h: "hd (?T @ post) = 91 \<or> ?T @ post = []" by (simp add: fillTag_def js_def)
  have n: "\<forall>v1 v2. a = v1 @ v2 \<and> v2 \<noteq> []
      \<longrightarrow> matchAt fillRe (rev v1 @ rev a0) (v2 @ ?T @ post) = None"
    using no_match_in_plainText [OF a _ _ h] by blast
  from search_first [OF m n] show ?thesis
    by (simp add: exec_def t)
qed

lemma search_none:
  "(\<forall>v1 v2. rest = v1 @ v2 \<longrightarrow> matchAt re (rev v1 @ prev) v2 = None) \<Longrightarrow> search re prev rest = None"
proof (cases "search re prev rest")
  case None
  then show ?thesis by simp
next
  case (Some y)
  assume n: "\<forall>v1 v2. rest = v1 @ v2 \<longrightarrow> matchAt re (rev v1 @ prev) v2 = None"
  obtain start p' r' c where "y = (start, p', r', c)" by (cases y) auto
  with Some search_sound [of re prev rest start p' r' c] obtain v w where
    "rest = v @ w @ r'" "start = rev v @ prev" "matchAt re start (w @ r') = Some (p', r', c)"
    by blast
  with n show ?thesis by (metis option.distinct(1))
qed

lemma exec_fillRe_plainText:
  assumes "plainText post"
  shows "exec fillRe (a0 @ post) (length a0) = None"
proof -
  have "\<forall>v1 v2. post = v1 @ v2 \<longrightarrow> matchAt fillRe (rev v1 @ rev a0) v2 = None"
  proof (intro allI impI)
    fix v1 v2 assume p: "post = v1 @ v2"
    show "matchAt fillRe (rev v1 @ rev a0) v2 = None"
    proof (cases v2)
      case Nil
      show ?thesis
      proof (rule ccontr)
        assume "matchAt fillRe (rev v1 @ rev a0) v2 \<noteq> None"
        from matchAt_fillRe_opener [OF this] Nil show False by (simp add: opener_split(1))
      qed
    next
      case (Cons x xs)
      with no_match_in_plainText [OF assms p, of "[]"] show ?thesis by simp
    qed
  qed
  from search_none [OF this] show ?thesis by (simp add: exec_def)
qed

lemma allMatches_fillTags:
  "(\<forall>(a, mid) \<in> set segs. plainText a \<and> oneLine mid) \<Longrightarrow> plainText post \<Longrightarrow>
   \<exists>ms. allMatches fillRe (a0 @ fillTags segs post) (length a0) = Some ms
      \<and> map (\<lambda>m. groups m 1) ms = map (\<lambda>(a, mid). Some (js ''{'' @ mid @ js ''}'')) segs"
proof (induction segs arbitrary: a0)
  case Nil
  then show ?case
    by (simp add: allMatches.simps [of fillRe "a0 @ post" "length a0"] exec_fillRe_plainText)
next
  case (Cons s segs)
  obtain a mid where s: "s = (a, mid)" by (cases s) auto
  let ?T = "fillTag (js ''{'' @ mid @ js ''}'')"
  let ?t = "a0 @ fillTags (s # segs) post"
  let ?m = "\<lparr>index = length a0 + length a, groups = [1 \<mapsto> js ''{'' @ mid @ js ''}''],
             lastIndex = length a0 + length a + length ?T\<rparr>"
  from Cons.prems s have a: "plainText a" "oneLine mid"
    and r: "\<forall>(a, mid) \<in> set segs. plainText a \<and> oneLine mid" by auto
  have t: "?t = a0 @ a @ ?T @ fillTags segs post" by (simp add: s)
  have e: "exec fillRe ?t (length a0) = Some ?m"
    by (rule exec_fillRe_tag [OF t a])
  have t': "?t = (a0 @ a @ ?T) @ fillTags segs post" by (simp add: s)
  from Cons.IH [OF r Cons.prems(2), of "a0 @ a @ ?T"] obtain ms where
    ms: "allMatches fillRe ?t (length (a0 @ a @ ?T)) = Some ms"
    "map (\<lambda>m. groups m 1) ms = map (\<lambda>(a, mid). Some (js ''{'' @ mid @ js ''}'')) segs"
    unfolding t' by blast
  have "0 < length ?T" by (simp add: fillTag_def js_def)
  then have b: "length a0 < lastIndex ?m \<and> lastIndex ?m \<le> length ?t" by (simp add: s)
  have "allMatches fillRe ?t (length a0) = Some (?m # ms)"
    using e b ms(1) by (simp add: allMatches.simps [of fillRe ?t "length a0"] add.assoc)
  with ms(2) show ?case by (simp add: s)
qed

lemma js_closer: "js ''}]'' = [125, 93]"
  by (simp add: js_def)

lemma untilCloser_Some:
  "untilCloser r = Some mid \<Longrightarrow> (\<exists>post. r = mid @ [125, 93] @ post) \<and> noCloser mid"
proof (induction r arbitrary: mid)
  case Nil
  then show ?case by simp
next
  case (Cons c r)
  show ?case
  proof (cases "prefix [125, 93] (c # r)")
    case True
    with Cons.prems have "mid = []" by (simp add: js_closer)
    with True show ?thesis by (auto simp: prefix_def noCloser_iff)
  next
    case False
    with Cons.prems obtain mid' where m: "untilCloser r = Some mid'" "mid = c # mid'"
      by (auto simp: js_closer)
    from Cons.IH [OF m(1)] obtain post where p: "r = mid' @ [125, 93] @ post" and n: "noCloser mid'"
      by blast
    have "noCloser (c # mid')"
      unfolding noCloser_iff
    proof (intro allI notI)
      fix a1 a2 assume e: "c # mid' = a1 @ [125, 93] @ a2"
      show False
      proof (cases a1)
        case Nil
        with e have "c = 125" "mid' = 93 # a2" by simp_all
        with p have "prefix [125, 93] (c # r)" by (simp add: prefix_def)
        with False show False by blast
      next
        case (Cons y ys)
        with e have "mid' = ys @ [125, 93] @ a2" by simp
        with n show False unfolding noCloser_iff by blast
      qed
    qed
    with p m(2) show ?thesis by simp
  qed
qed

lemma untilCloser_None: "untilCloser r = None \<Longrightarrow> r \<noteq> a1 @ [125, 93] @ a2"
proof (induction r arbitrary: a1)
  case Nil
  then show ?case by simp
next
  case (Cons c r)
  then have np: "\<not> prefix [125, 93] (c # r)" and u: "untilCloser r = None"
    by (auto simp: js_closer split: if_splits)
  show ?case
  proof (cases a1)
    case Nil
    with np show ?thesis by (auto simp: prefix_def)
  next
    case (Cons y ys)
    with Cons.IH [OF u, of ys] show ?thesis by simp
  qed
qed

lemma first_closer:
  assumes "mid @ [125, 93] @ post = mid' @ [125, 93] @ post'" "noCloser mid"
  shows "prefix mid mid'"
proof -
  from assms(1) obtain us where
    us: "(mid = mid' @ us \<and> us @ [125, 93] @ post = [125, 93] @ post')
       \<or> (mid @ us = mid' \<and> [125, 93] @ post = us @ [125, 93] @ post')"
    unfolding append_eq_append_conv2 by blast
  show ?thesis
  proof (cases "mid @ us = mid'")
    case True
    then show ?thesis by (auto simp: prefix_def)
  next
    case False
    with us have 1: "mid = mid' @ us" "us @ [125, 93] @ post = [125, 93] @ post'" by auto
    show ?thesis
    proof (cases us)
      case Nil
      with 1 show ?thesis by simp
    next
      case (Cons y ys)
      note c1 = Cons
      show ?thesis
      proof (cases ys)
        case Nil
        with c1 1(2) show ?thesis by simp
      next
        case (Cons z zs)
        with c1 1(2) have "us = [125, 93] @ zs" by simp
        with 1(1) have "mid = mid' @ [125, 93] @ zs" by simp
        with assms(2) show ?thesis unfolding noCloser_iff by blast
      qed
    qed
  qed
qed

lemma payloadAt_Some:
  assumes "payloadAt s = Some payload"
  shows "\<exists>mid post. payload = js ''{'' @ mid @ js ''}'' \<and> s = fillTag payload @ post
     \<and> list_all (\<lambda>c. \<not> isLineTerminator c) mid \<and> noCloser mid"
proof -
  let ?o = "js ''[ACTION:fill_input:{''"
  from assms have p: "prefix ?o s" unfolding payloadAt_def by (simp split: if_splits)
  then have s: "s = ?o @ drop (length ?o) s" by (metis append_eq_conv_conj prefix_def)
  from assms p obtain mid where m: "untilCloser (drop (length ?o) s) = Some mid"
    "list_all (\<lambda>c. \<not> isLineTerminator c) mid" "payload = js ''{'' @ mid @ js ''}''"
    unfolding payloadAt_def by (auto split: option.splits if_splits)
  from untilCloser_Some [OF m(1)] obtain post where
    d: "drop (length ?o) s = mid @ [125, 93] @ post" and n: "noCloser mid" by blast
  have "s = ?o @ mid @ [125, 93] @ post" using s d by simp
  then have "s = fillTag payload @ post"
    unfolding m(3) fillTag_opener by (simp add: js_closer)
  with m n show ?thesis by blast
qed

lemma payloadAt_matchAt:
  "matchAt fillRe prev s =
     (case payloadAt s of
        None \<Rightarrow> None
      | Some payload \<Rightarrow>
          Some (rev (fillTag payload) @ prev, drop (length (fillTag payload)) s, [1 \<mapsto> payload]))"
proof (cases "payloadAt s")
  case (Some payload)
  from payloadAt_Some [OF Some] obtain mid post where
    m: "payload = js ''{'' @ mid @ js ''}''" "s = fillTag payload @ post"
    "list_all (\<lambda>c. \<not> isLineTerminator c) mid" "noCloser mid" by blast
  have "matchAt fillRe prev (fillTag payload @ post)
      = Some (rev (fillTag payload) @ prev, post, [1 \<mapsto> payload])"
    unfolding m(1) by (rule matchAt_fillRe_Some [OF m(3,4)])
  moreover have "drop (length (fillTag payload)) s = post" using m(2) by simp
  ultimately show ?thesis using Some m(2) by simp
next
  case None
  let ?o = "js ''[ACTION:fill_input:{''"
  have "matchAt fillRe prev s = None"
  proof (rule ccontr)
    assume "matchAt fillRe prev s \<noteq> None"
    then obtain p' r' c where "matchAt fillRe prev s = Some (p', r', c)" by auto
    from matchAt_fillRe_sound [OF this] obtain mid' where
      s: "s = fillTag (js ''{'' @ mid' @ js ''}'') @ r'"
      and l: "list_all (\<lambda>c. \<not> isLineTerminator c) mid'" by blast
    from s have s': "s = ?o @ mid' @ [125, 93] @ r'"
      by (simp only: fillTag_opener js_closer append_assoc)
    then have p: "prefix ?o s" by (simp add: prefix_def)
    from s' have d: "drop (length ?o) s = mid' @ [125, 93] @ r'" by simp
    show False
    proof (cases "untilCloser (drop (length ?o) s)")
      case None
      from untilCloser_None [OF this] d show False by blast
    next
      case (Some mid)
      from untilCloser_Some [OF Some] d obtain post where
        e: "mid @ [125, 93] @ post = mid' @ [125, 93] @ r'" and n: "noCloser mid" by auto
      from first_closer [OF e n] l have "list_all (\<lambda>c. \<not> isLineTerminator c) mid"
        by (auto simp: prefix_def)
      with Some p \<open>payloadAt s = None\<close> show False by (simp add: payloadAt_def)
    qed
  qed
  with None show ?thesis by simp
qed

lemma exec_None_no_match:
  assumes "exec re t i = None" "i \<le> j" "j \<le> length t"
  shows "matchAt re (rev (take j t)) (drop j t) = None"
proof (rule ccontr)
  assume "matchAt re (rev (take j t)) (drop j t) \<noteq> None"
  then obtain p' r' c where "matchAt re (rev (take j t)) (drop j t) = Some (p', r', c)" by auto
  with assms(3) have "matchesAt re t j \<lparr>index = j, groups = c, lastIndex = length p'\<rparr>"
    by (simp add: matchesAt_def)
  from exec_complete [OF this assms(2)] assms(1) show False by simp
qed

lemma exec_Some_first:
  assumes "exec re t i = Some m"
  shows "i \<le> index m \<and> matchesAt re t (index m) m
     \<and> (\<forall>j. i \<le> j \<and> j < index m \<longrightarrow> matchAt re (rev (take j t)) (drop j t) = None)"
proof -
  from exec_matchesAt [OF assms] obtain j0 where j0: "i \<le> j0" "matchesAt re t j0 m" by blast
  then have ix: "index m = j0" by (auto simp: matchesAt_def)
  have "matchAt re (rev (take j t)) (drop j t) = None" if j: "i \<le> j" "j < index m" for j
  proof (rule ccontr)
    assume "matchAt re (rev (take j t)) (drop j t) \<noteq> None"
    then obtain p' r' c where "matchAt re (rev (take j t)) (drop j t) = Some (p', r', c)" by auto
    moreover from j j0 ix have "j \<le> length t" by (auto simp: matchesAt_def)
    ultimately have "matchesAt re t j \<lparr>index = j, groups = c, lastIndex = length p'\<rparr>"
      by (simp add: matchesAt_def)
    from exec_complete [OF this j(1)] assms obtain j1 where "j1 \<le> j" "matchesAt re t j1 m" by auto
    then have "index m \<le> j" by (auto simp: matchesAt_def)
    with j(2) show False by simp
  qed
  with j0 ix show ?thesis by simp
qed

lemma fillPayloads_skip:
  "(\<forall>v1 v2. v = v1 @ v2 \<and> v2 \<noteq> [] \<longrightarrow> payloadAt (v2 @ s) = None) \<Longrightarrow>
   fillPayloads (v @ s) = fillPayloads s"
proof (induction v)
  case Nil
  then show ?case by simp
next
  case (Cons x v)
  from Cons.prems have "payloadAt ((x # v) @ s) = None" by blast
  then have "fillPayloads ((x # v) @ s) = fillPayloads (v @ s)"
    by (simp add: fillPayloads.simps(2))
  moreover have "\<forall>v1 v2. v = v1 @ v2 \<and> v2 \<noteq> [] \<longrightarrow> payloadAt (v2 @ s) = None"
  proof (intro allI impI)
    fix v1 v2 assume "v = v1 @ v2 \<and> v2 \<noteq> []"
    then have "x # v = (x # v1) @ v2 \<and> v2 \<noteq> []" by simp
    with Cons.prems show "payloadAt (v2 @ s) = None" by blast
  qed
  ultimately show ?case using Cons.IH by simp
qed

lemma payloadAt_None_iff: "payloadAt s = None \<longleftrightarrow> matchAt fillRe prev s = None"
  by (simp add: payloadAt_matchAt split: option.splits)

lemma fillPayloads_between:
  assumes "i \<le> j" "j \<le> length t"
    and "\<forall>k. i \<le> k \<and> k < j \<longrightarrow> matchAt fillRe (rev (take k t)) (drop k t) = None"
  shows "fillPayloads (drop i t) = fillPayloads (drop j t)"
proof -
  let ?v = "take (j - i) (drop i t)"
  have dv: "drop i t = ?v @ drop j t"
    using append_take_drop_id [of "j - i" "drop i t"] assms(1) by simp
  have lv: "length ?v = j - i" using assms(2) by simp
  have "\<forall>v1 v2. ?v = v1 @ v2 \<and> v2 \<noteq> [] \<longrightarrow> payloadAt (v2 @ drop j t) = None"
  proof (intro allI impI)
    fix v1 v2 assume v: "?v = v1 @ v2 \<and> v2 \<noteq> []"
    then have "length ?v = length v1 + length v2" by (metis length_append)
    moreover from v have "0 < length v2" by simp
    ultimately have l: "length v1 < j - i" using lv by linarith
    let ?k = "i + length v1"
    have "drop i t = v1 @ v2 @ drop j t" using dv v by simp
    then have "drop (length v1) (drop i t) = v2 @ drop j t" by simp
    then have "drop ?k t = v2 @ drop j t" by (simp add: add.commute)
    moreover from l assms(3) have "matchAt fillRe (rev (take ?k t)) (drop ?k t) = None" by simp
    ultimately show "payloadAt (v2 @ drop j t) = None"
      using payloadAt_None_iff [of "drop ?k t" "rev (take ?k t)"] by simp
  qed
  from fillPayloads_skip [OF this] dv show ?thesis by simp
qed

lemma allMatches_fillPayloads:
  "allMatches fillRe t i = Some ms \<Longrightarrow> i \<le> length t \<Longrightarrow>
   map (\<lambda>m. groupOrEmpty m 1) ms = fillPayloads (drop i t)"
proof (induction fillRe t i arbitrary: ms rule: allMatches.induct)
  case (1 t i)
  show ?case
  proof (cases "exec fillRe t i")
    case None
    with "1.prems" have ms: "ms = []" by (simp add: allMatches.simps [of fillRe t i])
    have n: "\<forall>k. i \<le> k \<and> k < length t \<longrightarrow> matchAt fillRe (rev (take k t)) (drop k t) = None"
      using exec_None_no_match [OF None] by simp
    have "fillPayloads (drop i t) = fillPayloads (drop (length t) t)"
      by (rule fillPayloads_between [OF "1.prems"(2) le_refl n])
    with ms show ?thesis by simp
  next
    case (Some m)
    with "1.prems"(1) obtain ms' where
      b: "i < lastIndex m \<and> lastIndex m \<le> length t"
      and r: "allMatches fillRe t (lastIndex m) = Some ms'" and ms: "ms = m # ms'"
      by (auto simp: allMatches.simps [of fillRe t i] split: if_splits)
    from exec_Some_first [OF Some] have f: "i \<le> index m" "matchesAt fillRe t (index m) m"
      "\<forall>j. i \<le> j \<and> j < index m \<longrightarrow> matchAt fillRe (rev (take j t)) (drop j t) = None"
      by simp_all
    let ?j = "index m"
    from f(2) obtain p' r' c where j: "?j \<le> length t"
      and ma: "matchAt fillRe (rev (take ?j t)) (drop ?j t) = Some (p', r', c)"
      and m: "m = \<lparr>index = ?j, groups = c, lastIndex = length p'\<rparr>"
      by (auto simp: matchesAt_def)
    from ma obtain payload where pa: "payloadAt (drop ?j t) = Some payload"
      and p': "p' = rev (fillTag payload) @ rev (take ?j t)" and c: "c = [1 \<mapsto> payload]"
      by (auto simp: payloadAt_matchAt [of "rev (take ?j t)" "drop ?j t"] split: option.splits)
    from m p' j have li: "lastIndex m = ?j + length (fillTag payload)"
      by (metis jsmatch.select_convs(3) length_append length_rev length_take min.absorb2 add.commute)
    from m c have g: "groupOrEmpty m 1 = payload"
      by (metis groupOrEmpty_def jsmatch.select_convs(2) fun_upd_same option.simps(5))
    have 1: "fillPayloads (drop i t) = fillPayloads (drop ?j t)"
      by (rule fillPayloads_between [OF f(1) j f(3)])
    obtain x s where xs: "drop ?j t = x # s"
      using pa by (cases "drop ?j t") (auto simp: payloadAt_def js_def)
    have "fillPayloads (drop ?j t)
        = payload # fillPayloads (drop (length (fillTag payload)) (drop ?j t))"
      using pa unfolding xs by (simp add: fillPayloads.simps(2))
    also have "drop (length (fillTag payload)) (drop ?j t) = drop (lastIndex m) t"
      by (simp add: li add.commute)
    finally have 2: "fillPayloads (drop ?j t) = payload # fillPayloads (drop (lastIndex m) t)" .
    from "1.hyps" [OF Some b r] b have "map (\<lambda>m. groupOrEmpty m 1) ms' = fillPayloads (drop (lastIndex m) t)"
      by simp
    with 1 2 g ms show ?thesis by simp
  qed
qed

lemmas fill_eval = fillPayloads.simps payloadAt_def fillTag_def exampleReply_def
  exampleFieldPayload_def exampleSelectorPayload_def exampleThrowingPayload_def
  exampleCloserPayload_def exampleTwoLinePayload_def quoted_def isLineTerminator_def js_def

lemma ex4: "processMessage (exampleRuntime exampleReply) (VStr (js ''hello'')) [] VNull
   = Returns \<lparr>rtext = js ''x'',
        actions = [Scroll_page (js ''up''), Fill_input (Field (js ''name'')) (VStr (js ''Al'')),
                   Fill_input (Selector (js ''#name'')) (VStr (js ''Al''))]\<rparr>"
  by (simp add: process_eval normalizeHistory_def exampleReply_def fillTag_def
      cong: option.case_cong_weak list.case_cong_weak sum.case_cong_weak outcome.case_cong_weak)

lemma ex5: "processMessage (exampleRuntime (fillTag exampleThrowingPayload)) (VStr (js ''hello'')) [] VNull
   = Returns \<lparr>rtext = [], actions = []\<rparr>"
  by (simp add: process_eval normalizeHistory_def fillTag_def
      cong: option.case_cong_weak list.case_cong_weak sum.case_cong_weak outcome.case_cong_weak)

lemma valueOf_absent:
  "getProp obj (js ''value'') = VUndefined \<or> getProp obj (js ''value'') = VNull
   \<Longrightarrow> valueOf obj = VStr []"
  by (auto simp: valueOf_def)

lemma claimedFill_malformed: "parse payload = None \<Longrightarrow> claimedFill parse u payload = []"
  by (simp add: claimedFill_def)

lemma claimedFill_throws:
  "parse payload = Some obj \<Longrightarrow> fieldOf u obj = Inl e \<or> selectorOf obj = Inl e
   \<Longrightarrow> claimedFill parse u payload = []"
  by (auto simp: claimedFill_def split: sum.splits)

lemma claimedFill_selector:
  "parse payload = Some obj \<Longrightarrow> selectorOf obj = Inr selector \<Longrightarrow> selector \<noteq> []
   \<Longrightarrow> fieldOf u obj = Inr field
   \<Longrightarrow> claimedFill parse u payload = [Fill_input (Selector selector) (valueOf obj)]"
  by (simp add: claimedFill_def)

lemma claimedFill_field:
  "parse payload = Some obj \<Longrightarrow> selectorOf obj = Inr [] \<Longrightarrow> fieldOf u obj = Inr field
   \<Longrightarrow> claimedFill parse u payload
       = (if field \<in> set allowedFields then [Fill_input (Field field) (valueOf obj)] else [])"
  by (simp add: claimedFill_def)

lemma fillPayloads_fillTags:
  assumes "list_all (\<lambda>(a, mid). plainText a \<and> oneLine mid) segs" "plainText post"
  shows "fillPayloads (fillTags segs post) = map (\<lambda>(a, mid). js ''{'' @ mid @ js ''}'') segs"
proof -
  from assms(1) have s: "\<forall>(a, mid) \<in> set segs. plainText a \<and> oneLine mid"
    by (simp add: list_all_iff)
  from allMatches_fillTags [OF s assms(2), of "[]"] obtain ms where
    ms: "allMatches fillRe (fillTags segs post) 0 = Some ms"
    "map (\<lambda>m. groups m 1) ms = map (\<lambda>(a, mid). Some (js ''{'' @ mid @ js ''}'')) segs"
    by auto
  have "map (\<lambda>m. groupOrEmpty m 1) ms = map (\<lambda>g. case g of None \<Rightarrow> [] | Some s \<Rightarrow> s)
      (map (\<lambda>m. groups m 1) ms)"
    by (simp add: groupOrEmpty_def comp_def)
  also have "\<dots> = map (\<lambda>(a, mid). js ''{'' @ mid @ js ''}'') segs"
    unfolding ms(2) by (simp add: comp_def case_prod_unfold)
  finally show ?thesis using allMatches_fillPayloads [OF ms(1)] by simp
qed

lemma parseActions_fillPayloads:
  "\<exists>scrolls. parseActions parse u rawText
       = Some (scrolls @ concat (map (claimedFill parse u) (fillPayloads rawText)))
     \<and> (\<forall>a \<in> set scrolls. \<forall>tg v. a \<noteq> Fill_input tg v)"
proof -
  from parseActions_eq [of rawText parse u] obtain ms1 ms2 ms3 where
    3: "allMatches fillRe rawText 0 = Some ms3"
    and p: "parseActions parse u rawText =
         Some (map Scroll_to_section
                 (filter (\<lambda>s. s \<in> set allowedSections)
                    (map (\<lambda>m. toLowerCase u (groupOrEmpty m 1)) ms1))
               @ map Scroll_page
                 (filter (\<lambda>s. s \<in> set allowedDirections)
                    (map (\<lambda>m. toLowerCase u (groupOrEmpty m 1)) ms2))
               @ concat (map (\<lambda>m. fillBody parse u m []) ms3))"
    by blast
  let ?scrolls = "map Scroll_to_section
                 (filter (\<lambda>s. s \<in> set allowedSections)
                    (map (\<lambda>m. toLowerCase u (groupOrEmpty m 1)) ms1))
               @ map Scroll_page
                 (filter (\<lambda>s. s \<in> set allowedDirections)
                    (map (\<lambda>m. toLowerCase u (groupOrEmpty m 1)) ms2))"
  have g: "\<forall>m \<in> set ms3. groups m 1 = Some (groupOrEmpty m 1)"
  proof
    fix m assume "m \<in> set ms3"
    from allMatches_sound [OF 3 this] obtain j where "matchesAt fillRe rawText j m" by blast
    from matchesAt_fillRe [OF this] show "groups m 1 = Some (groupOrEmpty m 1)"
      by (auto simp: groupOrEmpty_def)
  qed
  have "map (\<lambda>m. fillBody parse u m []) ms3
      = map (\<lambda>m. claimedFill parse u (groupOrEmpty m 1)) ms3"
  proof (rule map_cong [OF refl])
    fix m assume "m \<in> set ms3"
    with g have "groups m 1 = Some (groupOrEmpty m 1)" by blast
    from fillBody_claimed [OF this, of parse u "[]"]
    show "fillBody parse u m [] = claimedFill parse u (groupOrEmpty m 1)" by simp
  qed
  also have "\<dots> = map (claimedFill parse u) (map (\<lambda>m. groupOrEmpty m 1) ms3)"
    by (simp add: comp_def)
  also have "\<dots> = map (claimedFill parse u) (fillPayloads rawText)"
    using allMatches_fillPayloads [OF 3] by simp
  finally have "parseActions parse u rawText
      = Some (?scrolls @ concat (map (claimedFill parse u) (fillPayloads rawText)))"
    using p by simp
  moreover have "\<forall>a \<in> set ?scrolls. \<forall>tg v. a \<noteq> Fill_input tg v" by auto
  ultimately show ?thesis by blast
qed

lemma tryBlock_returns:
  assumes "sendPrompt rt (normalizeHistory conversationHistory) userMessage pageContent = Inr rawText"
    and "parseFillFromUser (unicodeLower rt) userMessage = Returns fills"
    and "parseActions (JSON_parse rt) (unicodeLower rt) rawText = Some acts"
  shows "tryBlock rt userMessage conversationHistory pageContent
        = Returns \<lparr>rtext = displayText rawText fills, actions = mergeLoop acts fills\<rparr>"
  using assms parseFillFromUser_allowed [OF assms(2)] by (simp add: tryBlock_def)

text \<open>
  Claim C4. When the model call returns a text, the actions parsed from it are the scroll
  actions followed by what the occurrences of \<^verbatim>\<open>[ACTION:fill_input:<payload>]\<close> add, one
  after the other from left to right (\<open>fillPayloads\<close>: the payload of an occurrence runs
  from the brace after the name of the tag to the first \<^verbatim>\<open>}\<close> that \<^verbatim>\<open>]\<close> follows directly, all on one
  line, and the next occurrence is looked for behind that \<^verbatim>\<open>]\<close>). An occurrence adds nothing when its payload is not
  JSON, and nothing when the conversion of the payload's \<^verbatim>\<open>field\<close> or \<^verbatim>\<open>selector\<close> to a string
  throws; otherwise it adds one action with the selector when the selector is not empty,
  whatever the field is, and else one action with the lower-cased field when that is one
  of \<^verbatim>\<open>name\<close>, \<^verbatim>\<open>email\<close>, \<^verbatim>\<open>message\<close>, \<^verbatim>\<open>search\<close>; the value is the payload's, or the empty
  string (\<open>claimedFill\<close>). An occurrence that adds nothing does not end the reading: the
  later occurrences add their actions, the \<^verbatim>\<open>try\<close> block of \<^verbatim>\<open>processMessage\<close> returns without
  throwing, and the result is the usual one. In a text made of tags on one line each,
  with no \<^verbatim>\<open>}]\<close> inside, and of text in which no tag opens, the occurrences are these tags.
\<close>

theorem C4_fill_tags:
  assumes "sendPrompt rt (normalizeHistory conversationHistory) userMessage pageContent = Inr rawText"
    and "parseFillFromUser (unicodeLower rt) userMessage = Returns fills"
  shows "\<exists>scrolls acts.
       acts = scrolls @ concat (map (claimedFill (JSON_parse rt) (unicodeLower rt))
                                  (fillPayloads rawText))
     \<and> (\<forall>a \<in> set scrolls. \<forall>tg v. a \<noteq> Fill_input tg v)
     \<and> parseActions (JSON_parse rt) (unicodeLower rt) rawText = Some acts
     \<and> tryBlock rt userMessage conversationHistory pageContent
         = Returns \<lparr>rtext = displayText rawText fills, actions = mergeLoop acts fills\<rparr>
     \<and> processMessage rt userMessage conversationHistory pageContent
         = Returns \<lparr>rtext = displayText rawText fills, actions = mergeLoop acts fills\<rparr>
     \<and> (\<forall>segs post.
           rawText = fillTags segs post
           \<and> list_all (\<lambda>(a, mid). plainText a \<and> oneLine mid) segs \<and> plainText post
           \<longrightarrow> fillPayloads rawText = map (\<lambda>(a, mid). js ''{'' @ mid @ js ''}'') segs)"
proof -
  from parseActions_fillPayloads [of "JSON_parse rt" "unicodeLower rt" rawText]
  obtain scrolls where
    p: "parseActions (JSON_parse rt) (unicodeLower rt) rawText
       = Some (scrolls @ concat (map (claimedFill (JSON_parse rt) (unicodeLower rt))
                                   (fillPayloads rawText)))"
    and s: "\<forall>a \<in> set scrolls. \<forall>tg v. a \<noteq> Fill_input tg v" by blast
  let ?acts = "scrolls @ concat (map (claimedFill (JSON_parse rt) (unicodeLower rt))
                                   (fillPayloads rawText))"
  have t: "tryBlock rt userMessage conversationHistory pageContent
         = Returns \<lparr>rtext = displayText rawText fills, actions = mergeLoop ?acts fills\<rparr>"
    by (rule tryBlock_returns [OF assms p])
  then have m: "processMessage rt userMessage conversationHistory pageContent
         = Returns \<lparr>rtext = displayText rawText fills, actions = mergeLoop ?acts fills\<rparr>"
    by (simp add: processMessage_def)
  have c: "\<forall>segs post.
           rawText = fillTags segs post
           \<and> list_all (\<lambda>(a, mid). plainText a \<and> oneLine mid) segs \<and> plainText post
           \<longrightarrow> fillPayloads rawText = map (\<lambda>(a, mid). js ''{'' @ mid @ js ''}'') segs"
    using fillPayloads_fillTags by blast
  from p s t m c show ?thesis by blast
qed

lemma ex4_segments:
  "exampleReply = fillTags
     [(js ''x'', js ''oops''),
      (js '' '', quoted (js ''field'') @ js '':'' @ quoted (js ''NAME'') @ js '','' @
         quoted (js ''value'') @ js '':'' @ quoted (js ''Al'')),
      (js ''[ACTION:scroll_page:up]'', quoted (js ''selector'') @ js '':'' @ quoted (js ''#x'') @
         js '','' @ quoted (js ''field'') @ js '':{'' @ quoted (js ''toString'') @ js '':1}''),
      ([], quoted (js ''selector'') @ js '':'' @ quoted (js ''#name'') @ js '','' @
         quoted (js ''value'') @ js '':'' @ quoted (js ''Al''))] []"
  by (simp add: exampleReply_def fillTag_def exampleFieldPayload_def exampleSelectorPayload_def
      exampleThrowingPayload_def quoted_def js_def)

lemma ex4_separated:
  "list_all (\<lambda>(a, mid). plainText a \<and> oneLine mid)
     [(js ''x'', js ''oops''),
      (js '' '', quoted (js ''field'') @ js '':'' @ quoted (js ''NAME'') @ js '','' @
         quoted (js ''value'') @ js '':'' @ quoted (js ''Al'')),
      (js ''[ACTION:scroll_page:up]'', quoted (js ''selector'') @ js '':'' @ quoted (js ''#x'') @
         js '','' @ quoted (js ''field'') @ js '':{'' @ quoted (js ''toString'') @ js '':1}''),
      ([], quoted (js ''selector'') @ js '':'' @ quoted (js ''#name'') @ js '','' @
         quoted (js ''value'') @ js '':'' @ quoted (js ''Al''))]
   \<and> plainText []"
  by (simp add: plainText_def oneLine_def noCloser_def quoted_def js_def isLineTerminator_def
      sublist_Cons_right)

lemma ex4_claimed:
  "concat (map (claimedFill exampleParse (\<lambda>s. s))
     [js ''{oops}'', exampleFieldPayload, exampleThrowingPayload, exampleSelectorPayload])
   = [Fill_input (Field (js ''name'')) (VStr (js ''Al'')),
      Fill_input (Selector (js ''#name'')) (VStr (js ''Al''))]"
  by (simp add: claimedFill_def process_eval typeError_def)

theorem C4_fill_tags_witness:
  "fillPayloads exampleReply
     = [js ''{oops}'', exampleFieldPayload, exampleThrowingPayload, exampleSelectorPayload]
   \<and> (\<exists>scrolls. parseActions exampleParse (\<lambda>s. s) exampleReply
         = Some (scrolls @ [Fill_input (Field (js ''name'')) (VStr (js ''Al'')),
                            Fill_input (Selector (js ''#name'')) (VStr (js ''Al''))]))
   \<and> processMessage (exampleRuntime exampleReply) (VStr (js ''hello'')) [] VNull
     = Returns \<lparr>rtext = js ''x'',
          actions = [Scroll_page (js ''up''), Fill_input (Field (js ''name'')) (VStr (js ''Al'')),
                     Fill_input (Selector (js ''#name'')) (VStr (js ''Al''))]\<rparr>"
proof -
  let ?rt = "exampleRuntime exampleReply"
  from C4_fill_tags [OF ex_send ex3_fills, of exampleReply] obtain scrolls acts where
    a: "acts = scrolls @ concat (map (claimedFill (JSON_parse ?rt) (unicodeLower ?rt))
                                  (fillPayloads exampleReply))"
    and p: "parseActions (JSON_parse ?rt) (unicodeLower ?rt) exampleReply = Some acts"
    and c: "\<forall>segs post.
           exampleReply = fillTags segs post
           \<and> list_all (\<lambda>(a, mid). plainText a \<and> oneLine mid) segs \<and> plainText post
           \<longrightarrow> fillPayloads exampleReply = map (\<lambda>(a, mid). js ''{'' @ mid @ js ''}'') segs"
    by blast
  from c ex4_segments ex4_separated
  have "fillPayloads exampleReply = map (\<lambda>(a, mid). js ''{'' @ mid @ js ''}'')
     [(js ''x'', js ''oops''),
      (js '' '', quoted (js ''field'') @ js '':'' @ quoted (js ''NAME'') @ js '','' @
         quoted (js ''value'') @ js '':'' @ quoted (js ''Al'')),
      (js ''[ACTION:scroll_page:up]'', quoted (js ''selector'') @ js '':'' @ quoted (js ''#x'') @
         js '','' @ quoted (js ''field'') @ js '':{'' @ quoted (js ''toString'') @ js '':1}''),
      ([], quoted (js ''selector'') @ js '':'' @ quoted (js ''#name'') @ js '','' @
         quoted (js ''value'') @ js '':'' @ quoted (js ''Al''))]"
    by blast
  then have f: "fillPayloads exampleReply
     = [js ''{oops}'', exampleFieldPayload, exampleThrowingPayload, exampleSelectorPayload]"
    by (simp add: exampleFieldPayload_def exampleSelectorPayload_def exampleThrowingPayload_def
        quoted_def js_def)
  have r: "JSON_parse ?rt = exampleParse" "unicodeLower ?rt = (\<lambda>s. s)"
    by (simp_all add: exampleRuntime_def)
  from a p have "parseActions exampleParse (\<lambda>s. s) exampleReply
      = Some (scrolls @ [Fill_input (Field (js ''name'')) (VStr (js ''Al'')),
                         Fill_input (Selector (js ''#name'')) (VStr (js ''Al''))])"
    unfolding r f ex4_claimed by simp
  with f ex4 show ?thesis by blast
qed

lemma ex8:
  "parseActions exampleParse (\<lambda>s. s) (fillTag exampleCloserPayload) = Some []
   \<and> parseActions exampleParse (\<lambda>s. s) (fillTag exampleTwoLinePayload) = Some []"
  by (simp add: process_eval fillTag_def
      cong: option.case_cong_weak list.case_cong_weak sum.case_cong_weak outcome.case_cong_weak)

text \<open>
  Three tags whose payload is JSON and which add no action. The first payload has the
  selector \<^verbatim>\<open>#x\<close>, and its \<^verbatim>\<open>field\<close> is an object with a property \<^verbatim>\<open>toString\<close>: line 166 throws
  before line 167 reads the selector, and the \<^verbatim>\<open>catch\<close> of line 173 goes on to the next
  occurrence. The second has the field \<^verbatim>\<open>name\<close> and \<^verbatim>\<open>}]\<close> inside its value: the pattern of
  line 162 ends the payload at the first \<^verbatim>\<open>}]\<close>, and what it takes is not JSON. The third has
  the field \<^verbatim>\<open>name\<close> and is written on two lines: the pattern does not match it.
\<close>

theorem C4_no_action_counterexample:
  "exampleParse exampleThrowingPayload
     = Some (VObj [(js ''selector'', VStr (js ''#x'')),
                   (js ''field'', VObj [(js ''toString'', VNum (js ''1''))])])
   \<and> getProp (VObj [(js ''selector'', VStr (js ''#x'')),
                   (js ''field'', VObj [(js ''toString'', VNum (js ''1''))])]) (js ''selector'')
     = VStr (js ''#x'')
   \<and> fillPayloads (fillTag exampleThrowingPayload) = [exampleThrowingPayload]
   \<and> processMessage (exampleRuntime (fillTag exampleThrowingPayload)) (VStr (js ''hello'')) []
       VNull
     = Returns \<lparr>rtext = [], actions = []\<rparr>
   \<and> exampleParse exampleCloserPayload
     = Some (VObj [(js ''field'', VStr (js ''name'')), (js ''value'', VStr (js ''a}]b''))])
   \<and> fillPayloads (fillTag exampleCloserPayload)
     = [js ''{'' @ quoted (js ''field'') @ js '':'' @ quoted (js ''name'') @ js '','' @
        quoted (js ''value'') @ js '':'' @ [34] @ js ''a}'']
   \<and> parseActions exampleParse (\<lambda>s. s) (fillTag exampleCloserPayload) = Some []
   \<and> exampleParse exampleTwoLinePayload
     = Some (VObj [(js ''field'', VStr (js ''name'')), (js ''value'', VStr (js ''x''))])
   \<and> fillPayloads (fillTag exampleTwoLinePayload) = []
   \<and> parseActions exampleParse (\<lambda>s. s) (fillTag exampleTwoLinePayload) = Some []"
proof -
  have "exampleParse exampleThrowingPayload
     = Some (VObj [(js ''selector'', VStr (js ''#x'')),
                   (js ''field'', VObj [(js ''toString'', VNum (js ''1''))])])"
    by (simp add: exampleParse_def exampleFieldPayload_def exampleSelectorPayload_def
        exampleThrowingPayload_def quoted_def js_def)
  moreover have "getProp (VObj [(js ''selector'', VStr (js ''#x'')),
                   (js ''field'', VObj [(js ''toString'', VNum (js ''1''))])]) (js ''selector'')
     = VStr (js ''#x'')"
    by (simp add: js_def)
  moreover have "fillPayloads (fillTag exampleThrowingPayload) = [exampleThrowingPayload]"
    by (simp add: fill_eval)
  moreover have "exampleParse exampleCloserPayload
     = Some (VObj [(js ''field'', VStr (js ''name'')), (js ''value'', VStr (js ''a}]b''))])"
    by (simp add: exampleParse_def exampleFieldPayload_def exampleSelectorPayload_def
        exampleThrowingPayload_def exampleCloserPayload_def quoted_def js_def)
  moreover have "fillPayloads (fillTag exampleCloserPayload)
     = [js ''{'' @ quoted (js ''field'') @ js '':'' @ quoted (js ''name'') @ js '','' @
        quoted (js ''value'') @ js '':'' @ [34] @ js ''a}'']"
    by (simp add: fill_eval)
  moreover have "exampleParse exampleTwoLinePayload
     = Some (VObj [(js ''field'', VStr (js ''name'')), (js ''value'', VStr (js ''x''))])"
    by (simp add: exampleParse_def exampleFieldPayload_def exampleSelectorPayload_def
        exampleThrowingPayload_def exampleCloserPayload_def exampleTwoLinePayload_def
        quoted_def js_def)
  moreover have "fillPayloads (fillTag exampleTwoLinePayload) = []"
    by (simp add: fill_eval)
  ultimately show ?thesis using ex5 ex8 by blast
qed

section \<open>Properties of the scroll tags and of the cleaned text\<close>

lemma idAt_iff:
  "idAt pre s = Some b \<longleftrightarrow> (\<exists>post. s = tagOf pre b @ post \<and> b \<noteq> [] \<and> list_all isIdChar b)"
proof
  assume a: "idAt pre s = Some b"
  then have p: "prefix pre s" by (simp add: idAt_def split: if_splits)
  let ?r = "drop (length pre) s"
  from p have s: "s = pre @ ?r" by (metis append_eq_conv_conj prefix_def)
  from a p have b: "b = takeWhile isIdChar ?r" "b \<noteq> []"
    and d: "prefix [93] (dropWhile isIdChar ?r)"
    by (auto simp: idAt_def Let_def js_bracket split: if_splits)
  from d obtain post where "dropWhile isIdChar ?r = 93 # post" by (auto simp: prefix_def)
  then have "?r = b @ 93 # post" using b(1) by (metis takeWhile_dropWhile_id)
  with s have "s = tagOf pre b @ post" by (simp add: tagOf_def js_bracket)
  moreover have "list_all isIdChar b" unfolding b(1) list_all_iff by (auto dest: set_takeWhileD)
  ultimately show "\<exists>post. s = tagOf pre b @ post \<and> b \<noteq> [] \<and> list_all isIdChar b"
    using b(2) by blast
next
  assume "\<exists>post. s = tagOf pre b @ post \<and> b \<noteq> [] \<and> list_all isIdChar b"
  then obtain post where s: "s = pre @ b @ 93 # post" and b: "b \<noteq> []" "list_all isIdChar b"
    by (auto simp: tagOf_def js_bracket)
  from b(2) have all: "\<forall>x \<in> set b. isIdChar x" by (simp add: list_all_iff)
  have t: "takeWhile isIdChar (b @ 93 # post) = b"
    using all isIdChar_brackets(1) by (simp add: takeWhile_tail)
  have d: "dropWhile isIdChar (b @ 93 # post) = 93 # post"
    using all isIdChar_brackets(1) by (simp add: dropWhile_append3)
  show "idAt pre s = Some b"
    unfolding idAt_def s using t d b(1) by (simp add: Let_def js_bracket)
qed

lemma idAt_matchAt:
  "matchAt (tagRe pre isIdChar) prev s =
     (case idAt pre s of
        None \<Rightarrow> None
      | Some b \<Rightarrow> Some (rev (tagOf pre b) @ prev, drop (length (tagOf pre b)) s, [1 \<mapsto> b]))"
proof (cases "idAt pre s")
  case (Some b)
  then obtain post where s: "s = tagOf pre b @ post" and b: "b \<noteq> []" "list_all isIdChar b"
    unfolding idAt_iff by blast
  from matchAt_tagRe_Some [OF isIdChar_brackets(1) b, of pre prev post] Some s
  show ?thesis by simp
next
  case None
  have "matchAt (tagRe pre isIdChar) prev s = None"
  proof (rule ccontr)
    assume "matchAt (tagRe pre isIdChar) prev s \<noteq> None"
    then obtain p' r' c where "matchAt (tagRe pre isIdChar) prev s = Some (p', r', c)" by auto
    from matchAt_tagRe_sound [OF this] obtain b where
      "b \<noteq> []" "list_all isIdChar b" "s = tagOf pre b @ r'" by blast
    then have "idAt pre s = Some b" unfolding idAt_iff by blast
    with None show False by simp
  qed
  with None show ?thesis by simp
qed

lemma tagIds_skip:
  "(\<forall>v1 v2. v = v1 @ v2 \<and> v2 \<noteq> [] \<longrightarrow> idAt pre (v2 @ s) = None) \<Longrightarrow>
   tagIds pre (v @ s) = tagIds pre s"
proof (induction v)
  case Nil
  then show ?case by simp
next
  case (Cons x v)
  from Cons.prems have "idAt pre ((x # v) @ s) = None" by blast
  then have "tagIds pre ((x # v) @ s) = tagIds pre (v @ s)" by simp
  moreover have "\<forall>v1 v2. v = v1 @ v2 \<and> v2 \<noteq> [] \<longrightarrow> idAt pre (v2 @ s) = None"
  proof (intro allI impI)
    fix v1 v2 assume "v = v1 @ v2 \<and> v2 \<noteq> []"
    then have "x # v = (x # v1) @ v2 \<and> v2 \<noteq> []" by simp
    with Cons.prems show "idAt pre (v2 @ s) = None" by blast
  qed
  ultimately show ?case using Cons.IH by simp
qed

lemma tagIds_between:
  assumes "i \<le> j" "j \<le> length t"
    and "\<forall>k. i \<le> k \<and> k < j \<longrightarrow> matchAt (tagRe pre isIdChar) (rev (take k t)) (drop k t) = None"
  shows "tagIds pre (drop i t) = tagIds pre (drop j t)"
proof -
  let ?v = "take (j - i) (drop i t)"
  have dv: "drop i t = ?v @ drop j t"
    using append_take_drop_id [of "j - i" "drop i t"] assms(1) by simp
  have lv: "length ?v = j - i" using assms(2) by simp
  have "\<forall>v1 v2. ?v = v1 @ v2 \<and> v2 \<noteq> [] \<longrightarrow> idAt pre (v2 @ drop j t) = None"
  proof (intro allI impI)
    fix v1 v2 assume v: "?v = v1 @ v2 \<and> v2 \<noteq> []"
    then have "length ?v = length v1 + length v2" by (metis length_append)
    moreover from v have "0 < length v2" by simp
    ultimately have l: "length v1 < j - i" using lv by linarith
    let ?k = "i + length v1"
    have "drop i t = v1 @ v2 @ drop j t" using dv v by simp
    then have "drop (length v1) (drop i t) = v2 @ drop j t" by simp
    then have "drop ?k t = v2 @ drop j t" by (simp add: add.commute)
    moreover from l assms(3) have "matchAt (tagRe pre isIdChar) (rev (take ?k t)) (drop ?k t) = None"
      by simp
    ultimately show "idAt pre (v2 @ drop j t) = None"
      using idAt_matchAt [of pre "rev (take ?k t)" "drop ?k t"] by (simp split: option.splits)
  qed
  from tagIds_skip [OF this] dv show ?thesis by simp
qed

lemma tagIds_tag:
  assumes "91 \<notin> set pre'" "b \<noteq> []" "list_all isIdChar b"
  shows "tagIds (91 # pre') (tagOf (91 # pre') b @ post) = b # tagIds (91 # pre') post"
proof -
  let ?pre = "91 # pre'"
  let ?v = "pre' @ b @ [93]"
  have e: "tagOf ?pre b @ post = 91 # (?v @ post)" by (simp add: tagOf_def js_bracket)
  have "idAt ?pre (tagOf ?pre b @ post) = Some b" unfolding idAt_iff using assms(2,3) by blast
  then have 1: "tagIds ?pre (tagOf ?pre b @ post) = b # tagIds ?pre (?v @ post)"
    unfolding e by simp
  have n91: "91 \<notin> set ?v"
    using assms(1,3) isIdChar_brackets(2) by (auto simp: list_all_iff)
  have "\<forall>v1 v2. ?v = v1 @ v2 \<and> v2 \<noteq> [] \<longrightarrow> idAt ?pre (v2 @ post) = None"
  proof (intro allI impI)
    fix v1 v2 assume v: "?v = v1 @ v2 \<and> v2 \<noteq> []"
    then obtain y ys where y: "v2 = y # ys" by (cases v2) auto
    with v have "y \<in> set ?v" by (metis in_set_conv_decomp)
    with n91 have "y \<noteq> 91" by blast
    with y show "idAt ?pre (v2 @ post) = None" by (simp add: idAt_def)
  qed
  from tagIds_skip [OF this] 1 show ?thesis by simp
qed

lemma allMatches_tagIds:
  "allMatches re t i = Some ms \<Longrightarrow> re = tagRe (91 # pre') isIdChar \<Longrightarrow> 91 \<notin> set pre' \<Longrightarrow>
   i \<le> length t \<Longrightarrow> map (\<lambda>m. groupOrEmpty m 1) ms = tagIds (91 # pre') (drop i t)"
proof (induction re t i arbitrary: ms rule: allMatches.induct)
  case (1 re t i)
  let ?pre = "91 # pre'"
  note re = "1.prems"(2)
  show ?case
  proof (cases "exec re t i")
    case None
    with "1.prems"(1) have ms: "ms = []" by (simp add: allMatches.simps [of re t i])
    have n: "\<forall>k. i \<le> k \<and> k < length t \<longrightarrow>
        matchAt (tagRe ?pre isIdChar) (rev (take k t)) (drop k t) = None"
      using exec_None_no_match [OF None] re by simp
    have "tagIds ?pre (drop i t) = tagIds ?pre (drop (length t) t)"
      by (rule tagIds_between [OF "1.prems"(4) le_refl n])
    with ms show ?thesis by simp
  next
    case (Some m)
    with "1.prems"(1) obtain ms' where
      b: "i < lastIndex m \<and> lastIndex m \<le> length t"
      and r: "allMatches re t (lastIndex m) = Some ms'" and ms: "ms = m # ms'"
      by (auto simp: allMatches.simps [of re t i] split: if_splits)
    from exec_Some_first [OF Some] re have f: "i \<le> index m" "matchesAt re t (index m) m"
      "\<forall>j. i \<le> j \<and> j < index m \<longrightarrow>
         matchAt (tagRe ?pre isIdChar) (rev (take j t)) (drop j t) = None"
      by simp_all
    let ?j = "index m"
    from f(2) re obtain p' r' c where j: "?j \<le> length t"
      and ma: "matchAt (tagRe ?pre isIdChar) (rev (take ?j t)) (drop ?j t) = Some (p', r', c)"
      and m: "m = \<lparr>index = ?j, groups = c, lastIndex = length p'\<rparr>"
      by (auto simp: matchesAt_def)
    from ma obtain tagId where pa: "idAt ?pre (drop ?j t) = Some tagId"
      and p': "p' = rev (tagOf ?pre tagId) @ rev (take ?j t)" and c: "c = [1 \<mapsto> tagId]"
      by (auto simp: idAt_matchAt [of ?pre "rev (take ?j t)" "drop ?j t"] split: option.splits)
    from m p' j have li: "lastIndex m = ?j + length (tagOf ?pre tagId)"
      by (metis jsmatch.select_convs(3) length_append length_rev length_take min.absorb2 add.commute)
    from m c have g: "groupOrEmpty m 1 = tagId"
      by (metis groupOrEmpty_def jsmatch.select_convs(2) fun_upd_same option.simps(5))
    have 1: "tagIds ?pre (drop i t) = tagIds ?pre (drop ?j t)"
      by (rule tagIds_between [OF f(1) j f(3)])
    from pa obtain post where d: "drop ?j t = tagOf ?pre tagId @ post"
      and tg: "tagId \<noteq> []" "list_all isIdChar tagId"
      unfolding idAt_iff by blast
    have "drop (length (tagOf ?pre tagId)) (drop ?j t) = post" unfolding d by simp
    then have po: "post = drop (lastIndex m) t" by (simp add: li add.commute)
    have 2: "tagIds ?pre (drop ?j t) = tagId # tagIds ?pre (drop (lastIndex m) t)"
      unfolding d using tagIds_tag [OF "1.prems"(3) tg, of post] po by simp
    from "1.IH" [OF Some b r re "1.prems"(3)] b
    have "map (\<lambda>m. groupOrEmpty m 1) ms' = tagIds ?pre (drop (lastIndex m) t)" by simp
    with 1 2 g ms show ?thesis by simp
  qed
qed

lemma tagIds_isId: "b \<in> set (tagIds pre s) \<Longrightarrow> list_all isIdChar b"
proof (induction s)
  case Nil
  then show ?case by simp
next
  case (Cons x s)
  then show ?case by (auto simp: idAt_iff split: option.splits)
qed

lemma tagIds_lower:
  "map (toLowerCase u) (tagIds pre s) = map (map asciiLower) (tagIds pre s)"
  by (rule map_cong [OF refl]) (auto dest: tagIds_isId intro: toLowerCase_id)

lemma parseActions_tagIds:
  "\<exists>fills. parseActions parse u rawText
     = Some (map Scroll_to_section
               (filter (\<lambda>s. s \<in> set allowedSections)
                  (map (map asciiLower) (tagIds (js ''[ACTION:scroll_to_section:'') rawText)))
             @ map Scroll_page
               (filter (\<lambda>s. s \<in> set allowedDirections)
                  (map (map asciiLower) (tagIds (js ''[ACTION:scroll_page:'') rawText)))
             @ fills)
     \<and> list_all (\<lambda>a. \<exists>tg v. a = Fill_input tg v) fills"
proof -
  from parseActions_eq [of rawText parse u] obtain ms1 ms2 ms3 where
    1: "allMatches sectionRe rawText 0 = Some ms1"
    and 2: "allMatches pageRe rawText 0 = Some ms2"
    and p: "parseActions parse u rawText =
         Some (map Scroll_to_section
                 (filter (\<lambda>s. s \<in> set allowedSections)
                    (map (\<lambda>m. toLowerCase u (groupOrEmpty m 1)) ms1))
               @ map Scroll_page
                 (filter (\<lambda>s. s \<in> set allowedDirections)
                    (map (\<lambda>m. toLowerCase u (groupOrEmpty m 1)) ms2))
               @ concat (map (\<lambda>m. fillBody parse u m []) ms3))"
    by blast
  have s1: "js ''[ACTION:scroll_to_section:'' = 91 # js ''ACTION:scroll_to_section:''"
    and s2: "js ''[ACTION:scroll_page:'' = 91 # js ''ACTION:scroll_page:''"
    by (simp_all add: js_def)
  have "map (\<lambda>m. groupOrEmpty m 1) ms1 = tagIds (js ''[ACTION:scroll_to_section:'') rawText"
    using allMatches_tagIds [OF 1 sectionRe_tagRe no_bracket_in_names(1)] by (simp add: s1)
  then have a: "map (\<lambda>m. toLowerCase u (groupOrEmpty m 1)) ms1
      = map (map asciiLower) (tagIds (js ''[ACTION:scroll_to_section:'') rawText)"
    using tagIds_lower [of u "js ''[ACTION:scroll_to_section:''" rawText]
    by (metis (no_types, lifting) map_map comp_def map_eq_conv)
  have "map (\<lambda>m. groupOrEmpty m 1) ms2 = tagIds (js ''[ACTION:scroll_page:'') rawText"
    using allMatches_tagIds [OF 2 pageRe_tagRe no_bracket_in_names(2)] by (simp add: s2)
  then have b: "map (\<lambda>m. toLowerCase u (groupOrEmpty m 1)) ms2
      = map (map asciiLower) (tagIds (js ''[ACTION:scroll_page:'') rawText)"
    using tagIds_lower [of u "js ''[ACTION:scroll_page:''" rawText]
    by (metis (no_types, lifting) map_map comp_def map_eq_conv)
  have "list_all (\<lambda>a. \<exists>tg v. a = Fill_input tg v) (concat (map (\<lambda>m. fillBody parse u m []) ms3))"
    unfolding list_all_iff using fillBody_fills by auto
  with p show ?thesis unfolding a b by blast
qed

lemma opener8: "js ''[ACTION:'' = 91 # js ''ACTION:''" "length (js ''ACTION:'') = 7"
  "93 \<notin> set (js ''ACTION:'')" "length (js ''[ACTION:'') = 8"
  by (simp_all add: js_def)

lemma tagAt_iff:
  "tagAt s \<longleftrightarrow> (\<exists>body post. s = tagOf (js ''[ACTION:'') body @ post \<and> body \<noteq> [] \<and> 93 \<notin> set body)"
proof
  assume t: "tagAt s"
  let ?o = "js ''[ACTION:''"
  from t have "prefix ?o s" by (simp add: tagAt_def)
  then have s: "s = ?o @ drop (length ?o) s" by (metis append_eq_conv_conj prefix_def)
  from t obtain c r where d: "drop (length ?o) s = c # r" "c \<noteq> 93" "93 \<in> set r"
    by (auto simp: tagAt_def split: list.splits)
  from d(3) obtain ys zs where r: "r = ys @ 93 # zs" "93 \<notin> set ys" by (meson split_list_first)
  have "s = tagOf ?o (c # ys) @ zs" using s d(1) r(1) by (simp add: tagOf_def js_bracket)
  moreover have "93 \<notin> set (c # ys)" using d(2) r(2) by simp
  ultimately show "\<exists>body post. s = tagOf ?o body @ post \<and> body \<noteq> [] \<and> 93 \<notin> set body"
    by blast
next
  assume "\<exists>body post. s = tagOf (js ''[ACTION:'') body @ post \<and> body \<noteq> [] \<and> 93 \<notin> set body"
  then obtain body post where s: "s = js ''[ACTION:'' @ body @ 93 # post" and b: "body \<noteq> []"
    "93 \<notin> set body" by (auto simp: tagOf_def js_bracket)
  from b obtain c r where "body = c # r" "c \<noteq> 93" by (cases body) auto
  with s show "tagAt s" by (simp add: tagAt_def)
qed

lemma tagAt_matchAt: "tagAt s \<longleftrightarrow> matchAt actionTagRe prev s \<noteq> None"
proof
  assume "tagAt s"
  then obtain body post where "s = tagOf (js ''[ACTION:'') body @ post" "body \<noteq> []" "93 \<notin> set body"
    unfolding tagAt_iff by blast
  with matchAt_actionTagRe_Some [of body prev post] show "matchAt actionTagRe prev s \<noteq> None"
    by simp
next
  assume "matchAt actionTagRe prev s \<noteq> None"
  then obtain p' r' c where "matchAt actionTagRe prev s = Some (p', r', c)" by auto
  from matchAt_actionTagRe_sound [OF this] show "tagAt s" unfolding tagAt_iff by blast
qed

lemma replaceAll_tag:
  assumes "tagAt s"
  shows "\<exists>T s'. s = T @ s' \<and> T \<noteq> [] \<and> replaceAll actionTagRe prev s = replaceAll actionTagRe [] s'"
proof -
  from assms obtain body post where s: "s = tagOf (js ''[ACTION:'') body @ post"
    and b: "body \<noteq> []" "93 \<notin> set body" unfolding tagAt_iff by blast
  let ?T = "tagOf (js ''[ACTION:'') body"
  have ne: "?T \<noteq> []" by (simp add: tagOf_def js_bracket)
  have "s \<noteq> []" using s ne by simp
  then obtain x xs where xs: "s = x # xs" by (cases s) auto
  have m: "matchAt actionTagRe prev (x # xs) = Some (rev ?T @ prev, post, Map.empty)"
    unfolding xs [symmetric] s by (rule matchAt_actionTagRe_Some [OF b])
  have l: "length post < length (x # xs)" unfolding xs [symmetric] s using ne by simp
  have "replaceAll actionTagRe prev s = replaceAll actionTagRe (rev ?T @ prev) post"
    unfolding xs using m l by simp
  also have "\<dots> = replaceAll actionTagRe [] post" by (rule replaceAll_actionTagRe_prev)
  finally show ?thesis using s ne by blast
qed

lemma replaceAll_no_tag:
  assumes "\<not> tagAt (x # s)"
  shows "replaceAll actionTagRe prev (x # s) = x # replaceAll actionTagRe [] s"
proof -
  from assms have "matchAt actionTagRe prev (x # s) = None"
    using tagAt_matchAt [of "x # s" prev] by blast
  then have "replaceAll actionTagRe prev (x # s) = x # replaceAll actionTagRe (x # prev) s"
    by simp
  then show ?thesis by (simp add: replaceAll_actionTagRe_prev [of "x # prev"])
qed

lemma replaceAll_starts:
  "replaceAll actionTagRe [] s = w @ y \<Longrightarrow>
   prefix w s \<or> (\<exists>w1 w2 s'. w = w1 @ w2 \<and> w2 \<noteq> [] \<and> s = w1 @ s' \<and> tagAt s')"
proof (induction w arbitrary: s)
  case Nil
  then show ?case by simp
next
  case (Cons c w)
  show ?case
  proof (cases "tagAt s")
    case True
    then have "c # w = [] @ (c # w) \<and> c # w \<noteq> [] \<and> s = [] @ s \<and> tagAt s" by simp
    then show ?thesis by blast
  next
    case False
    from Cons.prems obtain x s0 where s: "s = x # s0" by (cases s) auto
    with False have "\<not> tagAt (x # s0)" by simp
    from replaceAll_no_tag [OF this, of "[]"] Cons.prems s
    have e: "x # replaceAll actionTagRe [] s0 = (c # w) @ y" by simp
    then have x: "x = c" and r: "replaceAll actionTagRe [] s0 = w @ y" by simp_all
    from Cons.IH [OF r] show ?thesis
    proof
      assume "prefix w s0"
      with s x show ?thesis by simp
    next
      assume "\<exists>w1 w2 s'. w = w1 @ w2 \<and> w2 \<noteq> [] \<and> s0 = w1 @ s' \<and> tagAt s'"
      then obtain w1 w2 s' where "w = w1 @ w2" "w2 \<noteq> []" "s0 = w1 @ s'" "tagAt s'" by blast
      with s x have "c # w = (c # w1) @ w2 \<and> w2 \<noteq> [] \<and> s = (c # w1) @ s' \<and> tagAt s'" by simp
      then show ?thesis by blast
    qed
  qed
qed

lemma tagAt_contains: "tagAt s \<Longrightarrow> 93 \<in> set (tl s) \<and> s \<noteq> [] \<and> hd s = 91"
  unfolding tagAt_iff by (auto simp: tagOf_def js_def)

lemma tagAt_extend:
  assumes "93 \<notin> set b1" "tagAt T"
  shows "tagAt (js ''[ACTION:'' @ b1 @ T)"
proof -
  from tagAt_contains [OF assms(2)] obtain t ts where T: "T = t # ts" "t = 91" "93 \<in> set ts"
    by (cases T) auto
  obtain c r where cr: "b1 @ T = c # r" using T by (cases "b1 @ T") auto
  have "c \<noteq> 93" using cr assms(1) T by (cases b1) auto
  moreover have "93 \<in> set r" using cr T by (cases b1) auto
  ultimately show ?thesis by (simp add: tagAt_def cr)
qed

lemma joined_tag_start:
  assumes nt: "\<not> tagAt (x # s)"
    and out: "tagAt (x # replaceAll actionTagRe [] s)"
  shows "joinAt (x # s)"
proof -
  from out obtain body post where
    o: "x # replaceAll actionTagRe [] s = js ''[ACTION:'' @ body @ 93 # post"
    and b: "body \<noteq> []" "93 \<notin> set body"
    unfolding tagAt_iff by (auto simp: tagOf_def js_bracket)
  let ?w = "js ''ACTION:'' @ body @ [93]"
  from o have x: "x = 91" and r: "replaceAll actionTagRe [] s = ?w @ post"
    by (simp_all add: opener8(1))
  from replaceAll_starts [OF r] show ?thesis
  proof
    assume "prefix ?w s"
    then obtain z where "s = ?w @ z" by (auto simp: prefix_def)
    with x have "x # s = tagOf (js ''[ACTION:'') body @ z"
      by (simp add: tagOf_def js_bracket opener8(1))
    with b have "tagAt (x # s)" unfolding tagAt_iff by blast
    with nt show ?thesis by blast
  next
    assume "\<exists>w1 w2 s'. ?w = w1 @ w2 \<and> w2 \<noteq> [] \<and> s = w1 @ s' \<and> tagAt s'"
    then obtain w1 w2 s' where w: "?w = w1 @ w2" "w2 \<noteq> []" and s: "s = w1 @ s'" and t: "tagAt s'"
      by blast
    show ?thesis
    proof (cases "length w1 < 7")
      case True
      let ?k = "Suc (length w1)"
      from w(1) True have w1: "w1 = take (length w1) (js ''ACTION:'')"
        by (simp add: append_eq_append_conv_if opener8(2) split: if_splits)
      have "take ?k (x # s) = 91 # w1" using s x by simp
      also have "\<dots> = take ?k (js ''[ACTION:'')" using w1 by (simp add: opener8(1))
      finally have "take ?k (x # s) = take ?k (js ''[ACTION:'')" .
      moreover have "tagAt (drop ?k (x # s))" using s t by simp
      moreover have "?k \<in> set [1..<8]" using True by simp
      ultimately show ?thesis unfolding joinAt_def list_ex_iff by blast
    next
      case False
      then have l: "length (js ''ACTION:'') \<le> length w1" by (simp add: opener8(2))
      define b1 where "b1 = drop (length (js ''ACTION:'')) w1"
      from arg_cong [OF w(1), of "take (length (js ''ACTION:''))"] l
      have "js ''ACTION:'' = take (length (js ''ACTION:'')) w1" by simp
      then have "w1 = js ''ACTION:'' @ b1"
        unfolding b1_def by (metis append_take_drop_id)
      moreover from arg_cong [OF w(1), of "drop (length (js ''ACTION:''))"] l
      have "body @ [93] = b1 @ w2" unfolding b1_def by simp
      ultimately have b1: "w1 = js ''ACTION:'' @ b1" "body @ [93] = b1 @ w2" by blast+
      from b1(2) w(2) have "prefix b1 body"
        by (metis append_butlast_last_id butlast_append butlast_snoc prefix_def)
      with b(2) have "93 \<notin> set b1" by (auto simp: prefix_def)
      from tagAt_extend [OF this t] have "tagAt (x # s)"
        using s x b1(1) by (simp add: opener8(1))
      with nt show ?thesis by blast
    qed
  qed
qed

lemma canJoin_append: "canJoin s \<Longrightarrow> canJoin (a @ s)"
proof (induction a)
  case Nil
  then show ?case by simp
next
  case (Cons x a)
  then show ?case by simp
qed

lemma cleaned_tag_joined:
  "hasTag (replaceAll actionTagRe [] s) \<Longrightarrow> canJoin s"
proof (induction "length s" arbitrary: s rule: less_induct)
  case less
  show ?case
  proof (cases s)
    case Nil
    with less.prems show ?thesis by simp
  next
    case (Cons x s0)
    show ?thesis
    proof (cases "tagAt s")
      case True
      from replaceAll_tag [OF True, of "[]"] obtain T s' where
        T: "s = T @ s'" "T \<noteq> []" "replaceAll actionTagRe [] s = replaceAll actionTagRe [] s'"
        by blast
      then have "length s' < length s" by simp
      from less.hyps [OF this] less.prems T(3) have "canJoin s'" by simp
      with T(1) show ?thesis by (simp add: canJoin_append)
    next
      case False
      with Cons have "\<not> tagAt (x # s0)" by simp
      from replaceAll_no_tag [OF this, of "[]"] Cons
      have r: "replaceAll actionTagRe [] s = x # replaceAll actionTagRe [] s0" by simp
      with less.prems have "tagAt (x # replaceAll actionTagRe [] s0)
          \<or> hasTag (replaceAll actionTagRe [] s0)" by simp
      then show ?thesis
      proof
        assume "tagAt (x # replaceAll actionTagRe [] s0)"
        with False Cons joined_tag_start [of x s0] show ?thesis by simp
      next
        assume "hasTag (replaceAll actionTagRe [] s0)"
        with less.hyps [of s0] Cons show ?thesis by simp
      qed
    qed
  qed
qed

lemma tagAt_append: "tagAt s \<Longrightarrow> tagAt (s @ z)"
proof -
  assume "tagAt s"
  then obtain body post where "s = tagOf (js ''[ACTION:'') body @ post" "body \<noteq> []"
    "93 \<notin> set body" unfolding tagAt_iff by blast
  then have "s @ z = tagOf (js ''[ACTION:'') body @ (post @ z) \<and> body \<noteq> [] \<and> 93 \<notin> set body"
    by simp
  then show ?thesis unfolding tagAt_iff by blast
qed

lemma hasTag_iff: "hasTag s \<longleftrightarrow> (\<exists>a r. s = a @ r \<and> tagAt r)"
proof (induction s)
  case Nil
  show ?case by (auto simp: tagAt_def js_def)
next
  case (Cons x s)
  show ?case
  proof
    assume "hasTag (x # s)"
    then show "\<exists>a r. x # s = a @ r \<and> tagAt r"
    proof (cases "tagAt (x # s)")
      case True
      then have "x # s = [] @ (x # s) \<and> tagAt (x # s)" by simp
      then show ?thesis by blast
    next
      case False
      with \<open>hasTag (x # s)\<close> Cons obtain a r where "s = a @ r" "tagAt r" by auto
      then have "x # s = (x # a) @ r \<and> tagAt r" by simp
      then show ?thesis by blast
    qed
  next
    assume "\<exists>a r. x # s = a @ r \<and> tagAt r"
    then obtain a r where ar: "x # s = a @ r" "tagAt r" by blast
    show "hasTag (x # s)"
    proof (cases a)
      case Nil
      with ar have "tagAt (x # s)" by simp
      then show ?thesis by simp
    next
      case (Cons y ys)
      with ar have "s = ys @ r" by simp
      with ar(2) Cons.IH show ?thesis by auto
    qed
  qed
qed

lemma hasTag_middle: "hasTag m \<Longrightarrow> hasTag (l @ m @ r)"
proof -
  assume "hasTag m"
  then obtain a t where "m = a @ t" "tagAt t" unfolding hasTag_iff by blast
  then have "l @ m @ r = (l @ a) @ (t @ r) \<and> tagAt (t @ r)" by (simp add: tagAt_append)
  then show ?thesis unfolding hasTag_iff by blast
qed

lemma trim_middle: "\<exists>l r. s = l @ trim s @ r"
proof -
  let ?s1 = "dropWhile isWhiteSpace s"
  have 1: "s = takeWhile isWhiteSpace s @ ?s1" by simp
  have "rev ?s1 = takeWhile isWhiteSpace (rev ?s1) @ dropWhile isWhiteSpace (rev ?s1)" by simp
  then have "rev (rev ?s1) = rev (takeWhile isWhiteSpace (rev ?s1) @ dropWhile isWhiteSpace (rev ?s1))"
    by (rule arg_cong)
  then have "?s1 = trim s @ rev (takeWhile isWhiteSpace (rev ?s1))"
    unfolding trim_def rev_append rev_rev_ident .
  with 1 have "s = takeWhile isWhiteSpace s @ trim s @ rev (takeWhile isWhiteSpace (rev ?s1))"
    by simp
  then show ?thesis by blast
qed

lemma hasTag_trim: "hasTag (trim s) \<Longrightarrow> hasTag s"
proof -
  assume h: "hasTag (trim s)"
  from trim_middle [of s] obtain l r where s: "s = l @ trim s @ r" by blast
  from hasTag_middle [OF h, of l r] s show ?thesis by simp
qed

lemma hasTag_bracket: "hasTag s \<Longrightarrow> 91 \<in> set s"
proof -
  assume "hasTag s"
  then obtain a r where s: "s = a @ r" and "tagAt r" unfolding hasTag_iff by blast
  from tagAt_contains [OF this(2)] have "r \<noteq> []" "hd r = 91" by simp_all
  then have "91 \<in> set r" by (metis hd_in_set)
  with s show ?thesis by simp
qed

lemma set_joinWith: "set (joinWith sep xs) \<subseteq> set sep \<union> \<Union> (set ` set xs)"
  by (induction sep xs rule: joinWith.induct) auto

lemma done_text_no_tag:
  assumes "\<forall>f \<in> set fills. fillField f \<in> set allowedFields"
  shows "\<not> hasTag (js ''Done. Filled: '' @ joinWith (js '', '') (map fillField fills) @ js ''.'')"
proof
  assume "hasTag (js ''Done. Filled: '' @ joinWith (js '', '') (map fillField fills) @ js ''.'')"
  from hasTag_bracket [OF this] have "91 \<in> set (joinWith (js '', '') (map fillField fills))"
    by (simp add: js_def)
  with set_joinWith [of "js '', ''" "map fillField fills"]
  obtain f where "f \<in> set fills" "91 \<in> set (fillField f)" by (auto simp: js_def)
  with assms show False by (auto simp: allowedFields_def js_def)
qed

lemma returned_tag_joined:
  assumes "parseFillFromUser u userMessage = Returns fills"
    and "hasTag (displayText rawText fills)"
  shows "canJoin rawText"
proof (cases "fills = []")
  case True
  with assms(2) have "hasTag (trim (replaceAll actionTagRe [] rawText))"
    by (simp add: displayText_def)
  from cleaned_tag_joined [OF hasTag_trim [OF this]] show ?thesis .
next
  case False
  from parseFillFromUser_allowed [OF assms(1)]
  have "\<forall>f \<in> set fills. fillField f \<in> set allowedFields" by (simp add: filter_id_conv)
  from done_text_no_tag [OF this] False assms(2) show ?thesis by (simp add: displayText_def)
qed

text \<open>
  Claim C5. When the model call returns a text, the parsed actions begin with one
  \<^verbatim>\<open>scroll_to_section\<close> action for every occurrence of \<^verbatim>\<open>[ACTION:scroll_to_section:<id>]\<close> whose
  id, lower-cased, is one of \<^verbatim>\<open>home\<close>, \<^verbatim>\<open>about\<close>, \<^verbatim>\<open>projects\<close>, \<^verbatim>\<open>contact\<close>, in the order of
  the occurrences, followed by one \<^verbatim>\<open>scroll_page\<close> action for every occurrence of
  \<^verbatim>\<open>[ACTION:scroll_page:<direction>]\<close> whose direction, lower-cased, is one of \<^verbatim>\<open>up\<close>, \<^verbatim>\<open>down\<close>,
  \<^verbatim>\<open>top\<close>, \<^verbatim>\<open>bottom\<close>; the other parsed actions are \<^verbatim>\<open>fill_input\<close> actions, and the result has
  the parsed actions followed by the fills of the user. So an occurrence whose id is not
  allowed gives no action. Whether its id is allowed or not, every occurrence is taken
  out of the text: the cleaned text is what is kept of the text before the occurrence,
  followed by the cleaned text after it, and the text returned is the cleaned text,
  trimmed, or the fixed confirmation. The text returned has no action tag in it, unless
  the text of the model has a part of \<^verbatim>\<open>[ACTION:\<close> with an action tag directly after it: the
  tags are taken out in one pass, and what the pass joins is not read again.
\<close>

theorem C5_scroll_tags:
  assumes "sendPrompt rt (normalizeHistory conversationHistory) userMessage pageContent = Inr rawText"
    and "parseFillFromUser (unicodeLower rt) userMessage = Returns fills"
  shows "\<exists>res acts fillActs.
       processMessage rt userMessage conversationHistory pageContent = Returns res
     \<and> parseActions (JSON_parse rt) (unicodeLower rt) rawText = Some acts
     \<and> acts =
         map Scroll_to_section
           (filter (\<lambda>s. s \<in> set allowedSections)
              (map (map asciiLower) (tagIds (js ''[ACTION:scroll_to_section:'') rawText)))
         @ map Scroll_page
           (filter (\<lambda>s. s \<in> set allowedDirections)
              (map (map asciiLower) (tagIds (js ''[ACTION:scroll_page:'') rawText)))
         @ fillActs
     \<and> list_all (\<lambda>a. \<exists>tg v. a = Fill_input tg v) fillActs
     \<and> actions res =
         acts @ map fillAction
                  (filter (\<lambda>f. \<not> (\<exists>v. Fill_input (Field (fillField f)) v \<in> set acts)) fills)
     \<and> (\<forall>s. Scroll_to_section s \<in> set (actions res) \<longleftrightarrow>
            s \<in> set allowedSections
            \<and> (\<exists>a sectionId post. rawText = a @ sectionTag sectionId @ post \<and> isId sectionId
                  \<and> map asciiLower sectionId = s))
     \<and> (\<forall>s. Scroll_page s \<in> set (actions res) \<longleftrightarrow>
            s \<in> set allowedDirections
            \<and> (\<exists>a direction post. rawText = a @ pageTag direction @ post \<and> isId direction
                  \<and> map asciiLower direction = s))
     \<and> rtext res =
         (if fills = [] then trim (replaceAll actionTagRe [] rawText)
          else js ''Done. Filled: '' @ joinWith (js '', '') (map fillField fills) @ js ''.'')
     \<and> (\<forall>a tagId post.
           isId tagId
           \<and> (rawText = a @ sectionTag tagId @ post \<or> rawText = a @ pageTag tagId @ post)
           \<longrightarrow> (\<exists>out. subseq out a
                 \<and> replaceAll actionTagRe [] rawText = out @ replaceAll actionTagRe [] post))
     \<and> (\<not> canJoin rawText \<longrightarrow> \<not> hasTag (rtext res))"
proof -
  from processMessage_returns [OF assms] obtain acts where
    a: "parseActions (JSON_parse rt) (unicodeLower rt) rawText = Some acts"
    and p: "processMessage rt userMessage conversationHistory pageContent
        = Returns \<lparr>rtext = displayText rawText fills, actions = mergeLoop acts fills\<rparr>"
    by blast
  from parseActions_tagIds [of "JSON_parse rt" "unicodeLower rt" rawText] a obtain fillActs where
    e: "acts =
         map Scroll_to_section
           (filter (\<lambda>s. s \<in> set allowedSections)
              (map (map asciiLower) (tagIds (js ''[ACTION:scroll_to_section:'') rawText)))
         @ map Scroll_page
           (filter (\<lambda>s. s \<in> set allowedDirections)
              (map (map asciiLower) (tagIds (js ''[ACTION:scroll_page:'') rawText)))
         @ fillActs"
    and f: "list_all (\<lambda>a. \<exists>tg v. a = Fill_input tg v) fillActs"
    by auto
  have m: "mergeLoop acts fills =
     acts @ map fillAction (filter (\<lambda>f. \<not> list_ex (isFillOf (fillField f)) acts) fills)"
    by (rule mergeLoop_eq [OF parseFillFromUser_distinct [OF assms(2)]])
  then have m': "mergeLoop acts fills =
     acts @ map fillAction
              (filter (\<lambda>f. \<not> (\<exists>v. Fill_input (Field (fillField f)) v \<in> set acts)) fills)"
    by (simp add: list_ex_isFillOf)
  have s: "Scroll_to_section s \<in> set (mergeLoop acts fills) \<longleftrightarrow> Scroll_to_section s \<in> set acts"
    and g: "Scroll_page s \<in> set (mergeLoop acts fills) \<longleftrightarrow> Scroll_page s \<in> set acts" for s
    unfolding m by (auto simp: fillAction_def)
  have d: "displayText rawText fills =
         (if fills = [] then trim (replaceAll actionTagRe [] rawText)
          else js ''Done. Filled: '' @ joinWith (js '', '') (map fillField fills) @ js ''.'')"
    by (simp add: displayText_def)
  have r: "\<forall>a tagId post.
           isId tagId
           \<and> (rawText = a @ sectionTag tagId @ post \<or> rawText = a @ pageTag tagId @ post)
           \<longrightarrow> (\<exists>out. subseq out a
                 \<and> replaceAll actionTagRe [] rawText = out @ replaceAll actionTagRe [] post)"
    using scroll_tag_removed [of _ rawText] by blast
  have j: "\<not> canJoin rawText \<longrightarrow> \<not> hasTag (displayText rawText fills)"
    using returned_tag_joined [OF assms(2)] by blast
  have 1: "\<forall>s. Scroll_to_section s \<in> set (mergeLoop acts fills) \<longleftrightarrow>
            s \<in> set allowedSections
            \<and> (\<exists>a sectionId post. rawText = a @ sectionTag sectionId @ post \<and> isId sectionId
                  \<and> map asciiLower sectionId = s)"
    by (simp add: s scroll_to_section_emitted [OF a])
  have 2: "\<forall>s. Scroll_page s \<in> set (mergeLoop acts fills) \<longleftrightarrow>
            s \<in> set allowedDirections
            \<and> (\<exists>a direction post. rawText = a @ pageTag direction @ post \<and> isId direction
                  \<and> map asciiLower direction = s)"
    by (simp add: g scroll_page_emitted [OF a])
  let ?res = "\<lparr>rtext = displayText rawText fills, actions = mergeLoop acts fills\<rparr>"
  have ra: "actions ?res = mergeLoop acts fills" and rt: "rtext ?res = displayText rawText fills"
    by simp_all
  show ?thesis
  proof (intro exI conjI)
    show "processMessage rt userMessage conversationHistory pageContent = Returns ?res"
      by (rule p)
    show "parseActions (JSON_parse rt) (unicodeLower rt) rawText = Some acts" by (rule a)
    show "acts =
         map Scroll_to_section
           (filter (\<lambda>s. s \<in> set allowedSections)
              (map (map asciiLower) (tagIds (js ''[ACTION:scroll_to_section:'') rawText)))
         @ map Scroll_page
           (filter (\<lambda>s. s \<in> set allowedDirections)
              (map (map asciiLower) (tagIds (js ''[ACTION:scroll_page:'') rawText)))
         @ fillActs" by (rule e)
    show "list_all (\<lambda>a. \<exists>tg v. a = Fill_input tg v) fillActs" by (rule f)
    show "actions ?res =
         acts @ map fillAction
                  (filter (\<lambda>f. \<not> (\<exists>v. Fill_input (Field (fillField f)) v \<in> set acts)) fills)"
      unfolding ra by (rule m')
    show "\<forall>s. Scroll_to_section s \<in> set (actions ?res) \<longleftrightarrow>
            s \<in> set allowedSections
            \<and> (\<exists>a sectionId post. rawText = a @ sectionTag sectionId @ post \<and> isId sectionId
                  \<and> map asciiLower sectionId = s)"
      unfolding ra by (rule 1)
    show "\<forall>s. Scroll_page s \<in> set (actions ?res) \<longleftrightarrow>
            s \<in> set allowedDirections
            \<and> (\<exists>a direction post. rawText = a @ pageTag direction @ post \<and> isId direction
                  \<and> map asciiLower direction = s)"
      unfolding ra by (rule 2)
    show "rtext ?res =
         (if fills = [] then trim (replaceAll actionTagRe [] rawText)
          else js ''Done. Filled: '' @ joinWith (js '', '') (map fillField fills) @ js ''.'')"
      unfolding rt by (rule d)
    show "\<forall>a tagId post.
           isId tagId
           \<and> (rawText = a @ sectionTag tagId @ post \<or> rawText = a @ pageTag tagId @ post)
           \<longrightarrow> (\<exists>out. subseq out a
                 \<and> replaceAll actionTagRe [] rawText = out @ replaceAll actionTagRe [] post)"
      by (rule r)
    show "\<not> canJoin rawText \<longrightarrow> \<not> hasTag (rtext ?res)"
      unfolding rt by (rule j)
  qed
qed

lemmas tag_eval = tagIds.simps idAt_def hasTag.simps canJoin.simps tagAt_def joinAt_def
  isIdChar_def isWordChar_def exampleScrollReply_def js_def Let_def

lemma ex6_ids:
  "tagIds (js ''[ACTION:scroll_to_section:'') exampleScrollReply
     = [js ''Home'', js ''unknown_id'', js ''home'']
   \<and> tagIds (js ''[ACTION:scroll_page:'') exampleScrollReply = [js ''UP'']"
  by (simp add: tag_eval)

lemma ex6_plain: "\<not> canJoin exampleScrollReply"
  by (simp add: tag_eval upt_rec)

lemma ex6: "processMessage (exampleRuntime exampleScrollReply) (VStr (js ''hello'')) [] VNull
   = Returns \<lparr>rtext = js ''AB'',
        actions = [Scroll_to_section (js ''home''), Scroll_to_section (js ''home''),
                   Scroll_page (js ''up'')]\<rparr>"
  by (simp add: process_eval normalizeHistory_def exampleScrollReply_def
      cong: option.case_cong_weak list.case_cong_weak sum.case_cong_weak outcome.case_cong_weak)

lemma ex7: "processMessage
     (exampleRuntime (js ''[ACTION[ACTION:scroll_to_section:foo]:scroll_to_section:foo]''))
     (VStr (js ''hello'')) [] VNull
   = Returns \<lparr>rtext = js ''[ACTION:scroll_to_section:foo]'', actions = []\<rparr>"
  by (simp add: process_eval normalizeHistory_def
      cong: option.case_cong_weak list.case_cong_weak sum.case_cong_weak outcome.case_cong_weak)

lemma ex7_ids:
  "tagIds (js ''[ACTION:scroll_to_section:'')
       (js ''[ACTION[ACTION:scroll_to_section:foo]:scroll_to_section:foo]'') = [js ''foo'']
   \<and> hasTag (js ''[ACTION:scroll_to_section:foo]'')
   \<and> canJoin (js ''[ACTION[ACTION:scroll_to_section:foo]:scroll_to_section:foo]'')"
  by (simp add: tag_eval upt_rec)

theorem C5_scroll_tags_witness:
  "processMessage (exampleRuntime exampleScrollReply) (VStr (js ''hello'')) [] VNull
     = Returns \<lparr>rtext = js ''AB'',
          actions = [Scroll_to_section (js ''home''), Scroll_to_section (js ''home''),
                     Scroll_page (js ''up'')]\<rparr>
   \<and> parseActions exampleParse (\<lambda>s. s) exampleScrollReply
     = Some [Scroll_to_section (js ''home''), Scroll_to_section (js ''home''),
             Scroll_page (js ''up'')]
   \<and> \<not> hasTag (js ''AB'')
   \<and> (\<exists>out. subseq out (js ''A[ACTION:scroll_to_section:Home]'')
        \<and> replaceAll actionTagRe [] exampleScrollReply
          = out @ replaceAll actionTagRe []
              (js ''[ACTION:scroll_page:UP][ACTION:scroll_to_section:home]B''))"
proof -
  let ?rt = "exampleRuntime exampleScrollReply"
  from C5_scroll_tags [OF ex_send ex3_fills, of exampleScrollReply] obtain res acts where
    p: "processMessage ?rt (VStr (js ''hello'')) [] VNull = Returns res"
    and a: "parseActions (JSON_parse ?rt) (unicodeLower ?rt) exampleScrollReply = Some acts"
    and m: "actions res =
         acts @ map fillAction
                  (filter (\<lambda>f. \<not> (\<exists>v. Fill_input (Field (fillField f)) v \<in> set acts)) [])"
    and r: "\<forall>a tagId post.
           isId tagId
           \<and> (exampleScrollReply = a @ sectionTag tagId @ post
                \<or> exampleScrollReply = a @ pageTag tagId @ post)
           \<longrightarrow> (\<exists>out. subseq out a
                 \<and> replaceAll actionTagRe [] exampleScrollReply
                   = out @ replaceAll actionTagRe [] post)"
    and j: "\<not> canJoin exampleScrollReply \<longrightarrow> \<not> hasTag (rtext res)"
    by blast
  from p ex6 have res: "res = \<lparr>rtext = js ''AB'',
          actions = [Scroll_to_section (js ''home''), Scroll_to_section (js ''home''),
                     Scroll_page (js ''up'')]\<rparr>" by simp
  from m res have "acts = [Scroll_to_section (js ''home''), Scroll_to_section (js ''home''),
                     Scroll_page (js ''up'')]" by simp
  with a have 1: "parseActions exampleParse (\<lambda>s. s) exampleScrollReply
     = Some [Scroll_to_section (js ''home''), Scroll_to_section (js ''home''),
             Scroll_page (js ''up'')]" by (simp add: exampleRuntime_def)
  from j ex6_plain res have 2: "\<not> hasTag (js ''AB'')" by simp
  have i: "isId (js ''unknown_id'')"
    by (simp add: isId_def js_def isIdChar_def isWordChar_def)
  have e: "exampleScrollReply = js ''A[ACTION:scroll_to_section:Home]'' @ sectionTag (js ''unknown_id'')
      @ js ''[ACTION:scroll_page:UP][ACTION:scroll_to_section:home]B''"
    by (simp add: exampleScrollReply_def sectionTag_def js_def)
  from r i e have 3: "\<exists>out. subseq out (js ''A[ACTION:scroll_to_section:Home]'')
        \<and> replaceAll actionTagRe [] exampleScrollReply
          = out @ replaceAll actionTagRe []
              (js ''[ACTION:scroll_page:UP][ACTION:scroll_to_section:home]B'')"
    by blast
  from ex6 1 2 3 show ?thesis by blast
qed

text \<open>
  A text of the model with an occurrence of \<^verbatim>\<open>[ACTION:scroll_to_section:foo]\<close>, whose id is not
  allowed: no action is emitted, and the text returned is that tag, which the pass of
  line 192 has joined from the text around the occurrence it took out.
\<close>

theorem C5_joined_tag_counterexample:
  "tagIds (js ''[ACTION:scroll_to_section:'')
       (js ''[ACTION[ACTION:scroll_to_section:foo]:scroll_to_section:foo]'') = [js ''foo'']
   \<and> processMessage
       (exampleRuntime (js ''[ACTION[ACTION:scroll_to_section:foo]:scroll_to_section:foo]''))
       (VStr (js ''hello'')) [] VNull
     = Returns \<lparr>rtext = js ''[ACTION:scroll_to_section:foo]'', actions = []\<rparr>
   \<and> hasTag (js ''[ACTION:scroll_to_section:foo]'')"
  using ex7 ex7_ids by blast

end
